theory Spec2Isabelle
  imports Complex_Main
begin

section \<open>Time values and the UTC calendar of the Date object\<close>

text \<open>
  A JavaScript Date holds a time value: a whole number of milliseconds since the epoch, at
  most 8.64e15 in magnitude, or NaN.  Every number the calendar functions below compute
  from such a value is a whole number far below 2^53, where double arithmetic is exact, so
  time values are modelled as integers, with \<open>None\<close> for NaN.  The functions are the
  abstract operations of the ECMAScript specification that \<open>getUTC...\<close> and
  \<open>setUTC...\<close> are defined by.
\<close>

type_synonym tv = "int option"

definition msPerSecond :: int where "msPerSecond = 1000"
definition msPerMinute :: int where "msPerMinute = 60000"
definition msPerHour :: int where "msPerHour = 3600000"
definition msPerDay :: int where "msPerDay = 86400000"

definition Day :: "int \<Rightarrow> int" where
  "Day t = t div msPerDay"

definition TimeWithinDay :: "int \<Rightarrow> int" where
  "TimeWithinDay t = t mod msPerDay"

definition DaysInYear :: "int \<Rightarrow> int" where
  "DaysInYear y =
     (if y mod 4 \<noteq> 0 then 365
      else if y mod 100 \<noteq> 0 then 366
      else if y mod 400 \<noteq> 0 then 365
      else 366)"

definition DayFromYear :: "int \<Rightarrow> int" where
  "DayFromYear y =
     365 * (y - 1970) + (y - 1969) div 4 - (y - 1901) div 100 + (y - 1601) div 400"

text \<open>
  \<open>YearFromTime t\<close> is the largest year whose first day is not after \<open>t\<close>.  It is
  computed from the mean length of a year (146097 days in 400 years), which is off by at
  most one year, and one adjustment; lemma \<open>YearFromTime_spec\<close> below proves that the
  result is the year the specification asks for.
\<close>

definition YearFromTime :: "int \<Rightarrow> int" where
  "YearFromTime t =
     (let d = Day t; y = 1970 + (400 * d) div 146097
      in if d < DayFromYear y then y - 1
         else if DayFromYear (y + 1) \<le> d then y + 1
         else y)"

definition InLeapYear :: "int \<Rightarrow> int" where
  "InLeapYear t = (if DaysInYear (YearFromTime t) = 365 then 0 else 1)"

definition DayWithinYear :: "int \<Rightarrow> int" where
  "DayWithinYear t = Day t - DayFromYear (YearFromTime t)"

text \<open>The day of the year on which month \<open>m\<close> (0 to 11) begins, \<open>l\<close> being 1 in a leap year.\<close>

definition MonthStart :: "int \<Rightarrow> int \<Rightarrow> int" where
  "MonthStart l m =
     (if m = 0 then 0 else if m = 1 then 31 else if m = 2 then 59 + l
      else if m = 3 then 90 + l else if m = 4 then 120 + l else if m = 5 then 151 + l
      else if m = 6 then 181 + l else if m = 7 then 212 + l else if m = 8 then 243 + l
      else if m = 9 then 273 + l else if m = 10 then 304 + l else 334 + l)"

definition MonthFromTime :: "int \<Rightarrow> int" where
  "MonthFromTime t =
     (let d = DayWithinYear t; l = InLeapYear t
      in if d < 31 then 0 else if d < 59 + l then 1 else if d < 90 + l then 2
         else if d < 120 + l then 3 else if d < 151 + l then 4 else if d < 181 + l then 5
         else if d < 212 + l then 6 else if d < 243 + l then 7 else if d < 273 + l then 8
         else if d < 304 + l then 9 else if d < 334 + l then 10 else 11)"

definition DateFromTime :: "int \<Rightarrow> int" where
  "DateFromTime t = DayWithinYear t - MonthStart (InLeapYear t) (MonthFromTime t) + 1"

definition HourFromTime :: "int \<Rightarrow> int" where
  "HourFromTime t = (t div msPerHour) mod 24"

definition MinFromTime :: "int \<Rightarrow> int" where
  "MinFromTime t = (t div msPerMinute) mod 60"

definition SecFromTime :: "int \<Rightarrow> int" where
  "SecFromTime t = (t div msPerSecond) mod 60"

definition msFromTime :: "int \<Rightarrow> int" where
  "msFromTime t = t mod msPerSecond"

definition MakeTime :: "int \<Rightarrow> int \<Rightarrow> int \<Rightarrow> int \<Rightarrow> int" where
  "MakeTime h m s milli = h * msPerHour + m * msPerMinute + s * msPerSecond + milli"

definition MakeDay :: "int \<Rightarrow> int \<Rightarrow> int \<Rightarrow> int" where
  "MakeDay year month date =
     (let ym = year + month div 12; mn = month mod 12
      in DayFromYear ym + MonthStart (if DaysInYear ym = 365 then 0 else 1) mn + date - 1)"

definition MakeDate :: "int \<Rightarrow> int \<Rightarrow> int" where
  "MakeDate day time = day * msPerDay + time"

definition maxTime :: int where "maxTime = 8640000000000000"

definition TimeClipInt :: "int \<Rightarrow> tv" where
  "TimeClipInt t = (if \<bar>t\<bar> > maxTime then None else Some t)"

subsection \<open>The eight setters the constructor uses\<close>

datatype granularity = Second | Minute | Hour | Day_unit | Week | Month | Quarter | Year

text \<open>
  Each entry of the table \<open>advanceByInterval\<close> reads one UTC field of \<open>curDate\<close>, adds
  to it and writes it back with the matching setter.  On an invalid date the getter gives
  NaN and the setter leaves NaN.
\<close>

fun advance :: "granularity \<Rightarrow> tv \<Rightarrow> tv" where
  "advance u None = None"
| "advance Second (Some t) =
     TimeClipInt (MakeDate (Day t)
       (MakeTime (HourFromTime t) (MinFromTime t) (SecFromTime t + 1) (msFromTime t)))"
| "advance Minute (Some t) =
     TimeClipInt (MakeDate (Day t)
       (MakeTime (HourFromTime t) (MinFromTime t + 1) (SecFromTime t) (msFromTime t)))"
| "advance Hour (Some t) =
     TimeClipInt (MakeDate (Day t)
       (MakeTime (HourFromTime t + 1) (MinFromTime t) (SecFromTime t) (msFromTime t)))"
| "advance Day_unit (Some t) =
     TimeClipInt (MakeDate (MakeDay (YearFromTime t) (MonthFromTime t) (DateFromTime t + 1))
       (TimeWithinDay t))"
| "advance Week (Some t) =
     TimeClipInt (MakeDate (MakeDay (YearFromTime t) (MonthFromTime t) (DateFromTime t + 7))
       (TimeWithinDay t))"
| "advance Month (Some t) =
     TimeClipInt (MakeDate (MakeDay (YearFromTime t) (MonthFromTime t + 1) (DateFromTime t))
       (TimeWithinDay t))"
| "advance Quarter (Some t) =
     TimeClipInt (MakeDate (MakeDay (YearFromTime t) (MonthFromTime t + 3) (DateFromTime t))
       (TimeWithinDay t))"
| "advance Year (Some t) =
     TimeClipInt (MakeDate (MakeDay (YearFromTime t + 1) (MonthFromTime t) (DateFromTime t))
       (TimeWithinDay t))"


section \<open>Values the constructors receive\<close>

text \<open>
  A JavaScript number is a double: a finite value, NaN or an infinity.  The finite ones
  are rationals; the model admits every rational, of which the doubles are a subset.
\<close>

datatype jsnum = Finite rat | NaN | PosInfinity | NegInfinity

text \<open>
  The arguments \<open>start\<close> and \<open>end\<close> are documented as \<open>Date|number|string\<close>;
  a missing argument is \<open>undefined\<close>.  A Date object carries its time value.
\<close>

datatype jsval = JUndefined | JNull | JBool bool | JNum jsnum | JStr string | JDate tv

fun ToBoolean :: "jsval \<Rightarrow> bool" where
  "ToBoolean JUndefined = False"
| "ToBoolean JNull = False"
| "ToBoolean (JBool b) = b"
| "ToBoolean (JNum (Finite q)) = (q \<noteq> 0)"
| "ToBoolean (JNum NaN) = False"
| "ToBoolean (JNum PosInfinity) = True"
| "ToBoolean (JNum NegInfinity) = True"
| "ToBoolean (JStr s) = (s \<noteq> [])"
| "ToBoolean (JDate t) = True"

fun TimeClip :: "jsnum \<Rightarrow> tv" where
  "TimeClip (Finite q) =
     (if \<bar>q\<bar> > of_int maxTime then None
      else Some (if q < 0 then - \<lfloor>- q\<rfloor> else \<lfloor>q\<rfloor>))"
| "TimeClip NaN = None"
| "TimeClip PosInfinity = None"
| "TimeClip NegInfinity = None"

fun number_of_tv :: "tv \<Rightarrow> jsnum" where
  "number_of_tv None = NaN"
| "number_of_tv (Some t) = Finite (of_int t)"

text \<open>
  \<open>new Date(value)\<close> with one argument: a Date is copied, a string is parsed, anything
  else is converted to a number; the result is clipped.  Parsing a string is the host's
  \<open>Date.parse\<close>, a parameter of the model.
\<close>

definition copy_Date :: "tv \<Rightarrow> tv" where
  "copy_Date t = TimeClip (number_of_tv t)"

fun new_Date :: "(string \<Rightarrow> tv) \<Rightarrow> jsval \<Rightarrow> tv" where
  "new_Date parse (JDate t) = copy_Date t"
| "new_Date parse (JStr s) = TimeClip (number_of_tv (parse s))"
| "new_Date parse JUndefined = TimeClip NaN"
| "new_Date parse JNull = TimeClip (Finite 0)"
| "new_Date parse (JBool b) = TimeClip (Finite (if b then 1 else 0))"
| "new_Date parse (JNum n) = TimeClip n"

text \<open>Relational operators on two Dates compare the time values; with NaN they are false.\<close>

fun date_less :: "tv \<Rightarrow> tv \<Rightarrow> bool" where
  "date_less (Some a) (Some b) = (a < b)"
| "date_less _ _ = False"

fun date_ge :: "tv \<Rightarrow> tv \<Rightarrow> bool" where
  "date_ge (Some a) (Some b) = (a \<ge> b)"
| "date_ge _ _ = False"

text \<open>\<open>a.getTime() === b.getTime()\<close>: NaN is not equal to itself.\<close>

fun time_strict_eq :: "tv \<Rightarrow> tv \<Rightarrow> bool" where
  "time_strict_eq (Some a) (Some b) = (a = b)"
| "time_strict_eq _ _ = False"

section \<open>DateRangeIntervals\<close>

datatype error =
    StartEndRequired        \<comment> \<open>\<open>Error('Start and end dates required')\<close>\<close>
  | InvalidStartDate        \<comment> \<open>\<open>Error('Invalid start date')\<close>\<close>
  | InvalidEndDate          \<comment> \<open>\<open>Error('Invalid end date')\<close>\<close>
  | StartNotBeforeEnd       \<comment> \<open>\<open>Error('Start must be before end')\<close>\<close>
  | InvalidInterval string  \<comment> \<open>\<open>Error(`Invalid interval '${interval}' provided.`)\<close>\<close>
  | InvalidVisitor          \<comment> \<open>\<open>Error('Invalid visitor: accepts only DateRangeIntervalVisitor')\<close>\<close>
  | VisitorNotFunction      \<comment> \<open>\<open>Error('Visitor must be a function')\<close>\<close>
  | TypeError               \<comment> \<open>raised by the language: a call of a non-function, a property of \<open>undefined\<close>\<close>
  | RangeError              \<comment> \<open>raised by \<open>toISOString\<close> on an invalid date\<close>

text \<open>How a synchronous call completes.\<close>

datatype 'a completion = Returns 'a | Throws error

subsection \<open>The two lookup tables\<close>

definition lowerInterval_own :: "string \<Rightarrow> string option" where
  "lowerInterval_own interval =
     (if interval = ''minute'' then Some ''second''
      else if interval = ''hour'' then Some ''minute''
      else if interval = ''day'' then Some ''hour''
      else if interval = ''week'' then Some ''day''
      else if interval = ''month'' then Some ''day''
      else if interval = ''quarter'' then Some ''month''
      else if interval = ''year'' then Some ''month''
      else None)"

definition advanceByInterval_own :: "string \<Rightarrow> granularity option" where
  "advanceByInterval_own interval =
     (if interval = ''second'' then Some Second
      else if interval = ''minute'' then Some Minute
      else if interval = ''hour'' then Some Hour
      else if interval = ''day'' then Some Day_unit
      else if interval = ''week'' then Some Week
      else if interval = ''month'' then Some Month
      else if interval = ''quarter'' then Some Quarter
      else if interval = ''year'' then Some Year
      else None)"

text \<open>
  Both tables are object literals, and \<open>table[interval]\<close> on an object literal also
  finds what the literal inherits from \<open>Object.prototype\<close>.  Such a value is not
  \<open>undefined\<close>, so the test \<open>!advanceByInterval\<close> lets it pass, and the loop then calls
  it with no receiver and no argument.  Of the inherited properties, \<open>constructor\<close>,
  \<open>toString\<close> and \<open>isPrototypeOf\<close> return from such a call and leave \<open>curDate\<close> as
  it is; the other functions convert the missing receiver to an object first, which raises
  a TypeError; \<open>__proto__\<close> is an object, and calling it raises a TypeError.
\<close>

datatype inherited = ReturnsWhenCalled | ThrowsWhenCalled

definition Object_prototype :: "string \<Rightarrow> inherited option" where
  "Object_prototype key =
     (if key \<in> {''constructor'', ''toString'', ''isPrototypeOf''} then Some ReturnsWhenCalled
      else if key \<in> {''hasOwnProperty'', ''propertyIsEnumerable'', ''toLocaleString'',
                      ''valueOf'', ''__defineGetter__'', ''__defineSetter__'',
                      ''__lookupGetter__'', ''__lookupSetter__'', ''__proto__''}
      then Some ThrowsWhenCalled
      else None)"

datatype advancer = UnitAdvance granularity | InheritedValue inherited

definition advanceByInterval_lookup :: "string \<Rightarrow> advancer option" where
  "advanceByInterval_lookup interval =
     (case advanceByInterval_own interval of
        Some u \<Rightarrow> Some (UnitAdvance u)
      | None \<Rightarrow> map_option InheritedValue (Object_prototype interval))"

text \<open>One call \<open>advanceByInterval()\<close>: the new value of \<open>curDate\<close>, or the error raised.\<close>

fun call_advance :: "advancer \<Rightarrow> tv \<Rightarrow> error + tv" where
  "call_advance (UnitAdvance u) cur = Inr (advance u cur)"
| "call_advance (InheritedValue ReturnsWhenCalled) cur = Inr cur"
| "call_advance (InheritedValue ThrowsWhenCalled) cur = Inl TypeError"

subsection \<open>The constructor\<close>

text \<open>
  The loop \<open>while(curDate < endDate){ segments.push(new Date(curDate)); advanceByInterval(); }\<close>.
  It returns the dates pushed and the final cursor; \<open>None\<close> is a loop that never ends.
\<close>

partial_function (option) segments_loop ::
  "advancer \<Rightarrow> tv \<Rightarrow> tv \<Rightarrow> tv list \<Rightarrow> (error + tv list \<times> tv) option" where
  "segments_loop adv endDate curDate segs =
     (if date_less curDate endDate
      then (case call_advance adv curDate of
              Inl e \<Rightarrow> Some (Inl e)
            | Inr cur' \<Rightarrow> segments_loop adv endDate cur' (segs @ [copy_Date curDate]))
      else Some (Inr (segs, curDate)))"

declare segments_loop.simps [code]

text \<open>
  The object built.  \<open>segs_pushed\<close> are the Date objects pushed by the loop, each a
  fresh copy; the last element of the source's \<open>segments\<close> is the object \<open>endDate\<close>
  itself, the same object that the property \<open>end\<close> holds, so the two are one field,
  \<open>end_prop\<close>.  \<open>lowerInterval_var\<close> is the variable \<open>lowerInterval\<close> which
  \<open>accept\<close> closes over.
\<close>

record DateRangeIntervals_object =
  segs_pushed :: "tv list"
  end_prop :: tv
  start_prop :: tv
  interval_prop :: string
  lowerInterval_var :: "string option"
  isEquipartition_prop :: bool
  length_prop :: nat

definition segments :: "DateRangeIntervals_object \<Rightarrow> tv list" where
  "segments S = segs_pushed S @ [end_prop S]"

definition DateRangeIntervals ::
  "(string \<Rightarrow> tv) \<Rightarrow> jsval \<Rightarrow> jsval \<Rightarrow> string \<Rightarrow> DateRangeIntervals_object completion option" where
  "DateRangeIntervals parse start end interval =
     (if \<not> ToBoolean start \<or> \<not> ToBoolean end then Some (Throws StartEndRequired)
      else
        let startDate = new_Date parse start;
            endDate = new_Date parse end;
            curDate = new_Date parse start
        in if startDate = None then Some (Throws InvalidStartDate)
           else if endDate = None then Some (Throws InvalidEndDate)
           else if date_ge startDate endDate then Some (Throws StartNotBeforeEnd)
           else
             (case advanceByInterval_lookup interval of
                None \<Rightarrow> Some (Throws (InvalidInterval interval))
              | Some adv \<Rightarrow>
                 (case segments_loop adv endDate curDate [] of
                    None \<Rightarrow> None
                  | Some (Inl e) \<Rightarrow> Some (Throws e)
                  | Some (Inr (segs, cur)) \<Rightarrow>
                      Some (Returns
                        \<lparr> segs_pushed = segs,
                          end_prop = endDate,
                          start_prop = startDate,
                          interval_prop = interval,
                          lowerInterval_var = lowerInterval_own interval,
                          isEquipartition_prop = time_strict_eq cur endDate,
                          length_prop = length (segs @ [endDate]) - 1 \<rparr>))))"


subsection \<open>The intervals yielded\<close>

record DateRangeInterval_object =
  iv_start :: tv
  iv_end :: tv
  iv_interval :: string

definition DateRangeInterval :: "tv \<Rightarrow> tv \<Rightarrow> string \<Rightarrow> DateRangeInterval_object" where
  "DateRangeInterval start end interval =
     \<lparr> iv_start = copy_Date start, iv_end = copy_Date end, iv_interval = interval \<rparr>"

text \<open>
  The generator: \<open>for(let i = 0; i < segments.length-1; i++)\<close> yields a new
  \<open>DateRangeInterval(segments[i], segments[i + 1], interval)\<close>.
\<close>

definition iterate :: "DateRangeIntervals_object \<Rightarrow> DateRangeInterval_object list" where
  "iterate S =
     map (\<lambda>i. DateRangeInterval (segments S ! i) (segments S ! (i + 1)) (interval_prop S))
       [0 ..< length (segments S) - 1]"

subsection \<open>The Date objects of a set\<close>










section \<open>DateRangeIntervalVisitor\<close>

text \<open>
  The writable fields of a visitor: \<open>depth\<close>, \<open>subIntervals\<close>, and whatever the caller
  has attached to the object (\<open>visitCount\<close>, \<open>dates\<close>, ...), of any type \<open>'s\<close>.
\<close>

record 's visitor_fields =
  depth :: int
  subIntervals :: bool
  extra :: 's

text \<open>
  What the callback threw, or what the promise it returned was rejected with: \<open>null\<close> or
  \<open>undefined\<close> (a promise rejected without a reason), or any other value, an Error object
  being the usual one.
\<close>

datatype thrown = Nullish | ErrorValue

text \<open>
  One call \<open>await visitor.visit(interval)\<close>.  The callback runs with the visitor as
  \<open>this\<close>, so it reads and may write the visitor's fields; it is handed the interval,
  whose two Dates it may change with their setters.  It returns a value, of which \<open>accept\<close>
  uses only the truthiness, or throws.
\<close>

record 's visit_result =
  signal :: "thrown + bool"
  fields_after :: "'s visitor_fields"
  start_after :: tv
  end_after :: tv

type_synonym 's callback = "'s visitor_fields \<Rightarrow> DateRangeInterval_object \<Rightarrow> 's visit_result"

text \<open>
  The three properties of an object that \<open>accept\<close> uses: what the call
  \<open>visitor.visit(interval)\<close> does (for an object whose \<open>visit\<close> is not a function
  the call raises a TypeError and changes nothing), and the writable fields.
\<close>

record 's DateRangeIntervalVisitor_object =
  visit :: "'s callback"
  writable :: "'s visitor_fields"

text \<open>
  The objects that can stand on a prototype chain: \<open>DateRangeIntervalVisitor.prototype\<close>,
  or any other, given by a name (\<open>Object.prototype\<close>, \<open>Function.prototype\<close>, the
  prototype of a subclass, ...).
\<close>

datatype prototype = DateRangeIntervalVisitor_prototype | Other_prototype string

text \<open>
  What can be passed to \<open>accept\<close>: an object, functions included, with its prototype
  chain (nearest first) and its properties, or a value that is no such object (a
  primitive, a Date).
\<close>

datatype 's argument =
    Object "prototype list" "'s DateRangeIntervalVisitor_object"
  | OtherValue jsval

text \<open>
  \<open>visitor instanceof DateRangeIntervalVisitor\<close>: false for a value that is not an
  object; for an object, whether \<open>DateRangeIntervalVisitor.prototype\<close> is on its
  prototype chain.  Who made the object plays no part.
\<close>

fun instanceof_DateRangeIntervalVisitor :: "'s argument \<Rightarrow> bool" where
  "instanceof_DateRangeIntervalVisitor (Object chain obj) =
     (DateRangeIntervalVisitor_prototype \<in> set chain)"
| "instanceof_DateRangeIntervalVisitor (OtherValue x) = False"

text \<open>
  Three shapes of object.  \<open>Instance\<close>: the prototype is
  \<open>DateRangeIntervalVisitor.prototype\<close>, as for the result of
  \<open>new DateRangeIntervalVisitor(fn)\<close> and equally for
  \<open>Object.create(DateRangeIntervalVisitor.prototype)\<close> with the properties assigned.
  \<open>PlainObject\<close>: an object literal with the three properties.  \<open>FunctionObject\<close>: a
  function, with the properties it has been given.
\<close>

abbreviation Instance :: "'s DateRangeIntervalVisitor_object \<Rightarrow> 's argument" where
  "Instance obj \<equiv>
     Object [DateRangeIntervalVisitor_prototype, Other_prototype ''Object.prototype''] obj"

abbreviation PlainObject :: "'s DateRangeIntervalVisitor_object \<Rightarrow> 's argument" where
  "PlainObject obj \<equiv> Object [Other_prototype ''Object.prototype''] obj"

abbreviation FunctionObject :: "'s DateRangeIntervalVisitor_object \<Rightarrow> 's argument" where
  "FunctionObject obj \<equiv>
     Object [Other_prototype ''Function.prototype'', Other_prototype ''Object.prototype''] obj"

text \<open>The argument \<open>fn\<close> of the constructor: a function, or a value of another type.\<close>

datatype 's fn_argument = Function "'s callback" | NotFunction jsval

text \<open>
  The constructor, called with \<open>new\<close> or without.  The caller attaches its own fields
  after construction; here their initial value \<open>attached\<close> is given with the call.
\<close>

definition DateRangeIntervalVisitor :: "'s fn_argument \<Rightarrow> 's \<Rightarrow> 's argument completion" where
  "DateRangeIntervalVisitor fn attached =
     (case fn of
        NotFunction x \<Rightarrow> Throws VisitorNotFunction
      | Function f \<Rightarrow>
          Returns (Instance
            \<lparr> visit = f,
              writable = \<lparr> depth = 0, subIntervals = False, extra = attached \<rparr> \<rparr>))"

section \<open>accept\<close>

text \<open>\<open>toISOString\<close> raises a RangeError on an invalid date.\<close>

definition toISOString_throws :: "DateRangeInterval_object \<Rightarrow> bool" where
  "toISOString_throws iv = (iv_start iv = None \<or> iv_end iv = None)"

text \<open>
  The \<open>catch\<close> block is one call of \<open>logger.error\<close>, whose argument is built first: the
  depth, the unit, \<open>toISOString\<close> of the two dates of the interval, then \<open>err.message\<close>,
  which raises a TypeError when \<open>err\<close> is \<open>null\<close> or \<open>undefined\<close>.  The result is the
  error the block raises, if any.  The logger itself is taken not to fail.
\<close>

definition catch_block :: "DateRangeInterval_object \<Rightarrow> thrown \<Rightarrow> error option" where
  "catch_block iv err =
     (if toISOString_throws iv then Some RangeError
      else if err = Nullish then Some TypeError
      else None)"

text \<open>The position of a unit in the chain of finer units, for the termination of \<open>accept\<close>.\<close>

fun rank :: "string \<Rightarrow> nat" where
  "rank interval =
     (if interval = ''minute'' then 1 else if interval = ''hour'' then 2
      else if interval = ''day'' then 3 else if interval = ''week'' then 4
      else if interval = ''month'' then 4 else if interval = ''quarter'' then 5
      else if interval = ''year'' then 5 else 0)"

text \<open>
  \<open>accept_loop\<close> is the loop \<open>for(const interval of this)\<close> of \<open>accept\<close>, over the
  intervals still to come, with the fields of the visitor passed along.  Its result is the
  error that ended the loop, if one did, and the fields at that point; \<open>None\<close> stands for
  not returning.  The first statement of the body, \<open>logger.silly\<close>, is outside the
  \<open>try\<close>; its argument calls \<open>toISOString\<close> on both dates.

  \<open>try_block\<close> is the body of the outer \<open>try\<close> for one interval: the call of the
  callback, then the descent if the callback's result is truthy, \<open>subIntervals\<close> is set and
  there is a finer unit.  Its result is the interval as the callback left it, what was
  thrown, if anything, and the fields.

  \<open>descend\<close> is the inner \<open>try\<close> with its \<open>finally\<close>: it adds one to \<open>depth\<close>, builds
  the set for the interval at the finer unit, awaits \<open>accept\<close> on it with the same visitor,
  and takes one from \<open>depth\<close> whether or not that failed.  What it passes on to the outer
  \<open>catch\<close> is the error thrown by the constructor or the one the inner \<open>accept\<close> was
  rejected with, both Error objects.  The visitor is the one that passed the \<open>instanceof\<close>
  test of the outer call, and passes it again: its prototype chain and its \<open>visit\<close>
  are taken to stay as they are during a traversal (for an object made by the constructor
  \<open>visit\<close> cannot be assigned to).
\<close>

function accept_loop ::
    "(string \<Rightarrow> tv) \<Rightarrow> 's callback \<Rightarrow> DateRangeIntervals_object \<Rightarrow> DateRangeInterval_object list
      \<Rightarrow> 's visitor_fields \<Rightarrow> (error option \<times> 's visitor_fields) option"
  and try_block ::
    "(string \<Rightarrow> tv) \<Rightarrow> 's callback \<Rightarrow> DateRangeIntervals_object \<Rightarrow> DateRangeInterval_object
      \<Rightarrow> 's visitor_fields
      \<Rightarrow> (DateRangeInterval_object \<times> thrown option \<times> 's visitor_fields) option"
  and descend ::
    "(string \<Rightarrow> tv) \<Rightarrow> 's callback \<Rightarrow> string \<Rightarrow> DateRangeInterval_object
      \<Rightarrow> 's visitor_fields \<Rightarrow> (thrown option \<times> 's visitor_fields) option"
where
  "accept_loop parse cb S [] v = Some (None, v)"
| "accept_loop parse cb S (iv # ivs) v =
     (if toISOString_throws iv then Some (Some RangeError, v)
      else
        case try_block parse cb S iv v of
          None \<Rightarrow> None
        | Some (iv', None, v') \<Rightarrow> accept_loop parse cb S ivs v'
        | Some (iv', Some err, v') \<Rightarrow>
            (case catch_block iv' err of
               Some e \<Rightarrow> Some (Some e, v')
             | None \<Rightarrow> accept_loop parse cb S ivs v'))"
| "try_block parse cb S iv v =
     (let r = cb v iv;
          iv' = iv\<lparr>iv_start := start_after r, iv_end := end_after r\<rparr>
      in case signal r of
           Inl err \<Rightarrow> Some (iv', Some err, fields_after r)
         | Inr subdivide \<Rightarrow>
             (case lowerInterval_var S of
                None \<Rightarrow> Some (iv', None, fields_after r)
              | Some lower \<Rightarrow>
                  if subdivide \<and> subIntervals (fields_after r)
                  then (case descend parse cb lower iv' (fields_after r) of
                          None \<Rightarrow> None
                        | Some (thrown, v') \<Rightarrow> Some (iv', thrown, v'))
                  else Some (iv', None, fields_after r)))"
| "descend parse cb lower iv v =
     (let v1 = v\<lparr>depth := depth v + 1\<rparr>
      in case DateRangeIntervals parse (JDate (iv_start iv)) (JDate (iv_end iv)) lower of
           None \<Rightarrow> None
         | Some (Throws e) \<Rightarrow> Some (Some ErrorValue, v1\<lparr>depth := depth v1 - 1\<rparr>)
         | Some (Returns child) \<Rightarrow>
             (case accept_loop parse cb child (iterate child) v1 of
                None \<Rightarrow> None
              | Some (None, v2) \<Rightarrow> Some (None, v2\<lparr>depth := depth v2 - 1\<rparr>)
              | Some (Some e, v2) \<Rightarrow> Some (Some ErrorValue, v2\<lparr>depth := depth v2 - 1\<rparr>)))"
  by pat_completeness auto
termination
proof (relation "measures
    [\<lambda>x. case x of
          Inl (parse, cb, S, ivs, v) \<Rightarrow>
            (case lowerInterval_var S of None \<Rightarrow> 2 | Some l \<Rightarrow> 3 * Suc (rank l) + 2)
        | Inr (Inl (parse, cb, S, iv, v)) \<Rightarrow>
            (case lowerInterval_var S of None \<Rightarrow> 1 | Some l \<Rightarrow> 3 * Suc (rank l) + 1)
        | Inr (Inr (parse, cb, lower, iv, v)) \<Rightarrow> 3 * rank lower + 3,
     \<lambda>x. case x of Inl (parse, cb, S, ivs, v) \<Rightarrow> length ivs | Inr _ \<Rightarrow> 0]", goal_cases)
  case 1 show ?case by simp
next
  case 2 then show ?case by (simp split: option.splits)
next
  case 3 then show ?case by simp
next
  case 4 then show ?case by simp
next
  case 5 then show ?case by simp
next
  case (6 parse cb lower iv v x x2 x1)
  then have "lowerInterval_var x1 = lowerInterval_own lower"
    by (auto simp: DateRangeIntervals_def Let_def
        split: if_splits option.splits sum.splits prod.splits)
  then show ?case by (simp add: lowerInterval_own_def)
qed

text \<open>
  \<open>accept\<close> is declared \<open>async\<close>: a call returns a promise and never throws to the
  caller; an error raised in the body, the \<open>instanceof\<close> test included, rejects that
  promise.
\<close>

datatype promise = Fulfilled | Rejected error

definition async_function :: "error option \<Rightarrow> promise completion" where
  "async_function raised = Returns (case raised of None \<Rightarrow> Fulfilled | Some e \<Rightarrow> Rejected e)"

text \<open>
  The call \<open>S.accept(visitor)\<close>: how the call completes, and the argument afterwards.
  The loop runs only for an argument that passed the \<open>instanceof\<close> test, which is an
  object.
\<close>

definition accept ::
  "(string \<Rightarrow> tv) \<Rightarrow> DateRangeIntervals_object \<Rightarrow> 's argument
    \<Rightarrow> (promise completion \<times> 's argument) option" where
  "accept parse S visitor =
     (if \<not> instanceof_DateRangeIntervalVisitor visitor
      then Some (async_function (Some InvalidVisitor), visitor)
      else
        case visitor of
          Object chain obj \<Rightarrow>
            (case accept_loop parse (visit obj) S (iterate S) (writable obj) of
               None \<Rightarrow> None
             | Some (raised, v) \<Rightarrow>
                 Some (async_function raised, Object chain (obj\<lparr>writable := v\<rparr>)))
        | OtherValue x \<Rightarrow> Some (async_function (Some InvalidVisitor), visitor))"

text \<open>
  A callback that keeps a record: it does what \<open>cb\<close> does and appends, to a list kept
  among the attached fields, the depth it was called at and the interval it was called
  with.  This is how the repository's tests observe a traversal.
\<close>

definition unlogged :: "('s \<times> 'l) visitor_fields \<Rightarrow> 's visitor_fields" where
  "unlogged v = \<lparr> depth = depth v, subIntervals = subIntervals v, extra = fst (extra v) \<rparr>"

definition logging :: "'s callback \<Rightarrow> ('s \<times> (int \<times> DateRangeInterval_object) list) callback" where
  "logging cb v iv =
     (let r = cb (unlogged v) iv
      in \<lparr> signal = signal r,
           fields_after =
             \<lparr> depth = depth (fields_after r), subIntervals = subIntervals (fields_after r),
               extra = (extra (fields_after r), snd (extra v) @ [(depth v, iv)]) \<rparr>,
           start_after = start_after r,
           end_after = end_after r \<rparr>)"

text \<open>
  The callback of the repository's test and README: beyond depth 1 it returns nothing;
  otherwise it records the two dates, counts the visit and asks for subdivision.
\<close>

definition test_callback :: "(nat \<times> (tv \<times> tv) list) callback" where
  "test_callback v iv =
     (if depth v > 1
      then \<lparr> signal = Inr False, fields_after = v,
             start_after = iv_start iv, end_after = iv_end iv \<rparr>
      else \<lparr> signal = Inr True,
             fields_after = v\<lparr>extra := (fst (extra v) + 1, snd (extra v) @ [(iv_start iv, iv_end iv)])\<rparr>,
             start_after = iv_start iv, end_after = iv_end iv \<rparr>)"

section \<open>Notions used in the statements\<close>

text \<open>A time value a Date can hold: NaN, or at most \<open>maxTime\<close> in magnitude.\<close>

definition valid_tv :: "tv \<Rightarrow> bool" where
  "valid_tv t = (case t of None \<Rightarrow> True | Some x \<Rightarrow> \<bar>x\<bar> \<le> maxTime)"

text \<open>The cursor after \<open>k\<close> calls of the setter of unit \<open>u\<close>.\<close>

definition cursor_at :: "granularity \<Rightarrow> tv \<Rightarrow> nat \<Rightarrow> tv" where
  "cursor_at u cur k = (advance u ^^ k) cur"

text \<open>An interval covers the instants from its start up to, not including, its end.\<close>

definition covers :: "DateRangeInterval_object \<Rightarrow> int \<Rightarrow> bool" where
  "covers iv t =
     (case (iv_start iv, iv_end iv) of (Some s, Some e) \<Rightarrow> s \<le> t \<and> t < e | _ \<Rightarrow> False)"

text \<open>The error taxonomy of the specification, over the errors the code raises.\<close>

definition InvalidInput :: "error \<Rightarrow> bool" where
  "InvalidInput e = (e \<in> {StartEndRequired, InvalidStartDate, InvalidEndDate, StartNotBeforeEnd})"

definition InvalidUnit :: "error \<Rightarrow> bool" where
  "InvalidUnit e = (case e of InvalidInterval name \<Rightarrow> True | _ \<Rightarrow> False)"

text \<open>The length in milliseconds of the units that have a fixed one.\<close>

fun unit_ms :: "granularity \<Rightarrow> int option" where
  "unit_ms Second = Some 1000"
| "unit_ms Minute = Some 60000"
| "unit_ms Hour = Some 3600000"
| "unit_ms Day_unit = Some 86400000"
| "unit_ms Week = Some 604800000"
| "unit_ms u = None"


text \<open>A callback that leaves \<open>depth\<close> as it found it.\<close>

definition preserves_depth :: "'s callback \<Rightarrow> bool" where
  "preserves_depth cb = (\<forall>v iv. depth (fields_after (cb v iv)) = depth v)"

text \<open>
  \<open>pre_order parse cb lower ivs n visits\<close>: the list \<open>visits\<close>, of intervals visited,
  each with the depth it was visited at, is a pre-order, depth-first visit of the first
  \<open>n\<close> intervals of \<open>ivs\<close>: each of them in turn, followed at once by the visits of its
  own subdivision, if it was subdivided, and only then the next.  An interval is
  subdivided only where there is a finer unit and the callback \<open>cb\<close>, called for it at
  that depth, returned a truthy value with \<open>subIntervals\<close> set; its subdivision is then
  the set that the constructor returns, at the finer unit, for the two dates that call
  left in the interval, and the visits of the subdivision are, again in pre-order, visits
  of the first few intervals of that set.  A traversal can end early, at any level.
\<close>

inductive pre_order ::
  "(string \<Rightarrow> tv) \<Rightarrow> 's callback \<Rightarrow> string option \<Rightarrow> DateRangeInterval_object list \<Rightarrow> nat
    \<Rightarrow> (int \<times> DateRangeInterval_object) list \<Rightarrow> bool"
  for parse :: "string \<Rightarrow> tv" and cb :: "'s callback"
where
  stop: "pre_order parse cb lower ivs 0 []"
| leaf: "pre_order parse cb lower ivs n rest \<Longrightarrow>
         pre_order parse cb lower (iv # ivs) (Suc n) ((d, iv) # rest)"
| node: "lower = Some l \<Longrightarrow>
         depth v = d \<Longrightarrow>
         signal (cb v iv) = Inr True \<Longrightarrow>
         subIntervals (fields_after (cb v iv)) \<Longrightarrow>
         DateRangeIntervals parse (JDate (start_after (cb v iv))) (JDate (end_after (cb v iv))) l
           = Some (Returns child) \<Longrightarrow>
         pre_order parse cb (lowerInterval_var child) (iterate child) m sub \<Longrightarrow>
         pre_order parse cb lower ivs n rest \<Longrightarrow>
         pre_order parse cb lower (iv # ivs) (Suc n) ((d, iv) # sub @ rest)"

text \<open>
  \<open>depth_order parse cb lower d ivs n visits\<close>: \<open>visits\<close> is such a pre-order visit of
  the first \<open>n\<close> intervals of \<open>ivs\<close> in which, moreover, each of these intervals was
  visited at depth \<open>d\<close>, the intervals of the subdivision of any of them at depth
  \<open>d + 1\<close>, and so on down: every visit at the depth of its level of recursion, counted
  from \<open>d\<close>.
\<close>

inductive depth_order ::
  "(string \<Rightarrow> tv) \<Rightarrow> 's callback \<Rightarrow> string option \<Rightarrow> int \<Rightarrow> DateRangeInterval_object list
    \<Rightarrow> nat \<Rightarrow> (int \<times> DateRangeInterval_object) list \<Rightarrow> bool"
  for parse :: "string \<Rightarrow> tv" and cb :: "'s callback"
where
  stop: "depth_order parse cb lower d ivs 0 []"
| leaf: "depth_order parse cb lower d ivs n rest \<Longrightarrow>
         depth_order parse cb lower d (iv # ivs) (Suc n) ((d, iv) # rest)"
| node: "lower = Some l \<Longrightarrow>
         depth v = d \<Longrightarrow>
         signal (cb v iv) = Inr True \<Longrightarrow>
         subIntervals (fields_after (cb v iv)) \<Longrightarrow>
         DateRangeIntervals parse (JDate (start_after (cb v iv))) (JDate (end_after (cb v iv))) l
           = Some (Returns child) \<Longrightarrow>
         depth_order parse cb (lowerInterval_var child) (d + 1) (iterate child) m sub \<Longrightarrow>
         depth_order parse cb lower d ivs n rest \<Longrightarrow>
         depth_order parse cb lower d (iv # ivs) (Suc n) ((d, iv) # sub @ rest)"



text \<open>
  The range of the repository's test and README, 2024-01-01 to 2025-01-01 in milliseconds
  since the epoch: its four quarters, its twelve months, and the sixteen of them in the
  order of the README's output.
\<close>

definition span :: "string \<Rightarrow> int \<Rightarrow> int \<Rightarrow> DateRangeInterval_object" where
  "span unit a b = \<lparr> iv_start = Some a, iv_end = Some b, iv_interval = unit \<rparr>"

definition quarters_2024 :: "DateRangeInterval_object list" where
  "quarters_2024 =
     [span ''quarter'' 1704067200000 1711929600000,
      span ''quarter'' 1711929600000 1719792000000,
      span ''quarter'' 1719792000000 1727740800000,
      span ''quarter'' 1727740800000 1735689600000]"




text \<open>A host whose \<open>Date.parse\<close> understands no string; the examples use Dates and numbers.\<close>

definition no_parse :: "string \<Rightarrow> tv" where
  "no_parse s = None"



text \<open>The set \<open>new DateRangeIntervals('2024-01-01', '2024-01-05', 'day')\<close> of the tests.\<close>

definition four_days :: DateRangeIntervals_object where
  "four_days =
     \<lparr> segs_pushed = [Some 1704067200000, Some 1704153600000, Some 1704240000000,
                      Some 1704326400000],
       end_prop = Some 1704412800000, start_prop = Some 1704067200000,
       interval_prop = ''day'', lowerInterval_var = Some ''hour'',
       isEquipartition_prop = True, length_prop = 4 \<rparr>"

text \<open>
  A callback that fails at every call with the given value and touches nothing:
  \<open>function(){ throw err; }\<close>, or \<open>() => Promise.reject(err)\<close>.
\<close>

definition always_throws :: "thrown \<Rightarrow> unit callback" where
  "always_throws err v iv =
     \<lparr> signal = Inl err, fields_after = v, start_after = iv_start iv, end_after = iv_end iv \<rparr>"



text \<open>
  The prototype chain of an object made with
  \<open>Object.create(Object.create(DateRangeIntervalVisitor.prototype))\<close>: no constructor
  has run on such an object.
\<close>

definition created_chain :: "prototype list" where
  "created_chain =
     [Other_prototype ''Object.create(DateRangeIntervalVisitor.prototype)'',
      DateRangeIntervalVisitor_prototype, Other_prototype ''Object.prototype'']"













section \<open>The calendar\<close>

lemma div_succ_int:
  fixes a n :: int
  assumes n: "0 < n"
  shows "(a + 1) div n = a div n + (if (a + 1) mod n = 0 then 1 else 0)"
proof -
  define q where "q = a div n"
  define r where "r = a mod n"
  have r: "0 \<le> r" "r < n" using n by (simp_all add: r_def)
  have a: "a = q * n + r" by (simp add: q_def r_def)
  have e: "a + 1 = (r + 1) + q * n" using a by simp
  have d: "(a + 1) div n = (r + 1) div n + q"
    unfolding e using n by (simp only: div_mult_self1 [of n "r + 1" q]) 
  have m: "(a + 1) mod n = (r + 1) mod n"
    unfolding e by simp
  show ?thesis
  proof (cases "r + 1 = n")
    case True
    then show ?thesis using d m n by (simp add: q_def)
  next
    case False
    then have "r + 1 < n" using r by simp
    then have "(r + 1) div n = 0" "(r + 1) mod n = r + 1" using r by simp_all
    then show ?thesis using d m r by (simp add: q_def)
  qed
qed

lemma mod_shift: "(k::int) mod n = 0 \<Longrightarrow> (y - k) mod n = y mod n"
  by (metis mod_diff_right_eq diff_zero)

lemma mod_4_of_100: 
  assumes "(y::int) mod 100 = 0" shows "y mod 4 = 0"
proof -
  have "y mod 4 = y mod 100 mod 4" by (simp add: mod_mod_cancel)
  then show ?thesis using assms by simp
qed

lemma mod_100_of_400: 
  assumes "(y::int) mod 400 = 0" shows "y mod 100 = 0"
proof -
  have "y mod 100 = y mod 400 mod 100" by (simp add: mod_mod_cancel)
  then show ?thesis using assms by simp
qed

lemma DayFromYear_step: "DayFromYear (y + 1) = DayFromYear y + DaysInYear y"
proof -
  have a: "(y + 1 - 1969) div 4 = (y - 1969) div 4 + (if y mod 4 = 0 then 1 else 0)"
    using div_succ_int [of 4 "y - 1969"] mod_shift [of 1968 4 y] by (simp add: algebra_simps)
  have b: "(y + 1 - 1901) div 100 = (y - 1901) div 100 + (if y mod 100 = 0 then 1 else 0)"
    using div_succ_int [of 100 "y - 1901"] mod_shift [of 1900 100 y] by (simp add: algebra_simps)
  have c: "(y + 1 - 1601) div 400 = (y - 1601) div 400 + (if y mod 400 = 0 then 1 else 0)"
    using div_succ_int [of 400 "y - 1601"] mod_shift [of 1600 400 y] by (simp add: algebra_simps)
  show ?thesis
    unfolding DayFromYear_def DaysInYear_def a b c
    using mod_4_of_100 [of y] mod_100_of_400 [of y] by auto
qed

lemma div_bounds:
  fixes x n :: int assumes "0 < n"
  shows "n * (x div n) \<le> x" "x < n * (x div n) + n"
proof -
  have "x = n * (x div n) + x mod n" by simp
  moreover have "0 \<le> x mod n" "x mod n < n" using assms by simp_all
  ultimately show "n * (x div n) \<le> x" "x < n * (x div n) + n" by linarith+
qed

lemma DayFromYear_estimate:
  fixes d :: int
  defines "y \<equiv> 1970 + (400 * d) div 146097"
  shows "DayFromYear (y - 1) \<le> d" "d < DayFromYear (y + 2)"
proof -
  define k where "k = (400 * d) div 146097"
  have k: "146097 * k \<le> 400 * d" "400 * d < 146097 * k + 146097"
    unfolding k_def using div_bounds [of 146097 "400 * d"] by simp_all
  have y: "y = 1970 + k" by (simp add: y_def k_def)
  define a b c where "a = k div 4" and "b = (k + 68) div 100" and "c = (k + 368) div 400"
  have abc: "4 * a \<le> k" "k + 68 < 100 * b + 100" "400 * c \<le> k + 368"
    unfolding a_def b_def c_def
    using div_bounds [of 4 k] div_bounds [of 100 "k + 68"] div_bounds [of 400 "k + 368"]
    by simp_all
  have "DayFromYear (y - 1) = 365 * (k - 1) + a - b + c"
    by (simp add: DayFromYear_def y a_def b_def c_def add.commute)
  moreover have "400 * (365 * (k - 1) + a - b + c) \<le> 146097 * k"
    using abc by (simp add: algebra_simps)
  ultimately have "400 * DayFromYear (y - 1) \<le> 400 * d" using k by simp
  then show "DayFromYear (y - 1) \<le> d" by simp
  define a' b' c' where "a' = (k + 3) div 4" and "b' = (k + 71) div 100"
    and "c' = (k + 371) div 400"
  have abc': "k + 3 < 4 * a' + 4" "100 * b' \<le> k + 71" "k + 371 < 400 * c' + 400"
    unfolding a'_def b'_def c'_def
    using div_bounds [of 4 "k + 3"] div_bounds [of 100 "k + 71"] div_bounds [of 400 "k + 371"]
    by simp_all
  have "DayFromYear (y + 2) = 365 * (k + 2) + a' - b' + c'"
    by (simp add: DayFromYear_def y a'_def b'_def c'_def add.commute)
  moreover have "146097 * k + 146097 \<le> 400 * (365 * (k + 2) + a' - b' + c')"
    using abc' by (simp add: algebra_simps)
  ultimately have "400 * d < 400 * DayFromYear (y + 2)" using k by simp
  then show "d < DayFromYear (y + 2)" by simp
qed

lemma YearFromTime_spec:
  "DayFromYear (YearFromTime t) \<le> Day t" "Day t < DayFromYear (YearFromTime t + 1)"
  using DayFromYear_estimate [of "Day t"]
  by (auto simp: YearFromTime_def Let_def)

lemma DaysInYear_ge: "365 \<le> DaysInYear y" "DaysInYear y \<le> 366"
  by (simp_all add: DaysInYear_def)

lemma InLeapYear_range: "InLeapYear t = 0 \<or> InLeapYear t = 1"
  by (simp add: InLeapYear_def)

lemma MonthFromTime_range: "MonthFromTime t \<in> {0, 1, 2, 3, 4, 5, 6, 7, 8, 9, 10, 11}"
  by (simp add: MonthFromTime_def Let_def)

lemma MonthStart_mono:
  assumes "l = 0 \<or> l = 1" "m \<in> {0, 1, 2, 3, 4, 5, 6, 7, 8, 9, 10}"
  shows "MonthStart l m < MonthStart l (m + 1)"
  using assms by (auto simp: MonthStart_def)

lemma MonthStart_bounds:
  assumes "l = 0 \<or> l = 1"
  shows "0 \<le> MonthStart l m" "MonthStart l m \<le> 335"
  using assms by (auto simp: MonthStart_def)

lemma MakeDay_in_year:
  assumes "m \<in> {0, 1, 2, 3, 4, 5, 6, 7, 8, 9, 10, 11}"
  shows "MakeDay (YearFromTime t) m d =
         DayFromYear (YearFromTime t) + MonthStart (InLeapYear t) m + d - 1"
  using assms by (auto simp: MakeDay_def InLeapYear_def)

lemma MakeDay_fields:
  "MakeDay (YearFromTime t) (MonthFromTime t) (DateFromTime t + k) = Day t + k"
  using MonthFromTime_range [of t]
  by (simp only: MakeDay_in_year) (simp add: DateFromTime_def DayWithinYear_def)

lemma time_of_day: "MakeDate (Day t) (TimeWithinDay t) = t"
  by (simp add: MakeDate_def Day_def TimeWithinDay_def)

lemma MakeTime_fields:
  "MakeTime (HourFromTime t) (MinFromTime t) (SecFromTime t) (msFromTime t) = TimeWithinDay t"
proof -
  define a where "a = t div 1000"
  define b where "b = a div 60"
  define c where "c = b div 60"
  define e where "e = c div 24"
  have b: "t div 60000 = b"
    using zdiv_zmult2_eq [of 60 t 1000] by (simp add: a_def b_def)
  have c: "t div 3600000 = c"
    using zdiv_zmult2_eq [of 60 t 60000] b by (simp add: c_def)
  have e: "t div 86400000 = e"
    using zdiv_zmult2_eq [of 24 t 3600000] c by (simp add: e_def)
  have "msFromTime t = t - 1000 * a"
    unfolding msFromTime_def msPerSecond_def a_def by (rule minus_mult_div_eq_mod [symmetric])
  moreover have "SecFromTime t = a - 60 * b"
    unfolding SecFromTime_def msPerSecond_def a_def [symmetric] b_def
    by (rule minus_mult_div_eq_mod [symmetric])
  moreover have "MinFromTime t = b - 60 * c"
    unfolding MinFromTime_def msPerMinute_def b c_def
    by (rule minus_mult_div_eq_mod [symmetric])
  moreover have "HourFromTime t = c - 24 * e"
    unfolding HourFromTime_def msPerHour_def c e_def
    by (rule minus_mult_div_eq_mod [symmetric])
  moreover have "TimeWithinDay t = t - 86400000 * e"
    unfolding TimeWithinDay_def msPerDay_def e [symmetric]
    by (rule minus_mult_div_eq_mod [symmetric])
  ultimately show ?thesis
    by (simp add: MakeTime_def msPerHour_def msPerMinute_def msPerSecond_def)
qed

lemma MakeTime_add:
  "MakeTime (h + i) (m + j) (s + k) milli =
   MakeTime h m s milli + i * msPerHour + j * msPerMinute + k * msPerSecond"
  by (simp add: MakeTime_def algebra_simps)

lemma MakeDate_add: "MakeDate (d + i) (x + j) = MakeDate d x + i * msPerDay + j"
  by (simp add: MakeDate_def algebra_simps)

text \<open>What one call advances the cursor by, before clipping.\<close>

lemma advance_Second: "advance Second (Some t) = TimeClipInt (t + msPerSecond)"
  using MakeTime_add [of "HourFromTime t" 0 "MinFromTime t" 0 "SecFromTime t" 1 "msFromTime t"]
    MakeDate_add [of "Day t" 0 "TimeWithinDay t" msPerSecond]
  by (simp add: MakeTime_fields time_of_day)

lemma advance_Minute: "advance Minute (Some t) = TimeClipInt (t + msPerMinute)"
  using MakeTime_add [of "HourFromTime t" 0 "MinFromTime t" 1 "SecFromTime t" 0 "msFromTime t"]
    MakeDate_add [of "Day t" 0 "TimeWithinDay t" msPerMinute]
  by (simp add: MakeTime_fields time_of_day)

lemma advance_Hour: "advance Hour (Some t) = TimeClipInt (t + msPerHour)"
  using MakeTime_add [of "HourFromTime t" 1 "MinFromTime t" 0 "SecFromTime t" 0 "msFromTime t"]
    MakeDate_add [of "Day t" 0 "TimeWithinDay t" msPerHour]
  by (simp add: MakeTime_fields time_of_day)

lemma advance_Day: "advance Day_unit (Some t) = TimeClipInt (t + msPerDay)"
  using MakeDate_add [of "Day t" 1 "TimeWithinDay t" 0]
  by (simp add: MakeDay_fields time_of_day)

lemma advance_Week: "advance Week (Some t) = TimeClipInt (t + 7 * msPerDay)"
  using MakeDate_add [of "Day t" 7 "TimeWithinDay t" 0]
  by (simp add: MakeDay_fields time_of_day)

lemma MakeDate_less:
  assumes "Day t < d"
  shows "t < MakeDate d (TimeWithinDay t)"
proof -
  have "MakeDate d (TimeWithinDay t) = t + (d - Day t) * msPerDay"
    using MakeDate_add [of "Day t" "d - Day t" "TimeWithinDay t" 0] by (simp add: time_of_day)
  moreover have "0 < (d - Day t) * msPerDay" using assms by (simp add: msPerDay_def)
  ultimately show ?thesis by simp
qed

lemma Day_fields: "Day t = DayFromYear (YearFromTime t) + MonthStart (InLeapYear t) (MonthFromTime t) + DateFromTime t - 1"
  by (simp add: DateFromTime_def DayWithinYear_def)

lemma MakeDay_next_year:
  assumes "m \<in> {0, 1, 2, 3, 4, 5, 6, 7, 8, 9, 10, 11}"
  shows "DayFromYear (YearFromTime t) + 365 + d - 1 \<le> MakeDay (YearFromTime t + 1) m d"
proof -
  have "0 \<le> MonthStart (if DaysInYear (YearFromTime t + 1) = 365 then 0 else 1) m"
    by (rule MonthStart_bounds) simp
  then show ?thesis
    using assms DaysInYear_ge [of "YearFromTime t"]
    by (auto simp: MakeDay_def DayFromYear_step)
qed

lemma MakeDay_Month_greater:
  "Day t < MakeDay (YearFromTime t) (MonthFromTime t + 1) (DateFromTime t)"
proof (cases "MonthFromTime t = 11")
  case True
  have "MakeDay (YearFromTime t) 12 (DateFromTime t) = MakeDay (YearFromTime t + 1) 0 (DateFromTime t)"
    by (simp add: MakeDay_def)
  then show ?thesis
    using True MakeDay_next_year [of 0 t "DateFromTime t"] Day_fields [of t]
      MonthStart_bounds [OF InLeapYear_range, of t 11]
    by simp
next
  case False
  then have m: "MonthFromTime t \<in> {0, 1, 2, 3, 4, 5, 6, 7, 8, 9, 10}"
    using MonthFromTime_range [of t] by auto
  then have "MonthFromTime t + 1 \<in> {0, 1, 2, 3, 4, 5, 6, 7, 8, 9, 10, 11}" by auto
  then show ?thesis
    using MonthStart_mono [OF InLeapYear_range m] Day_fields [of t]
    by (simp only: MakeDay_in_year) simp
qed

lemma MakeDay_Quarter_greater:
  "Day t < MakeDay (YearFromTime t) (MonthFromTime t + 3) (DateFromTime t)"
proof (cases "MonthFromTime t \<in> {9, 10, 11}")
  case True
  then have "MakeDay (YearFromTime t) (MonthFromTime t + 3) (DateFromTime t) =
      MakeDay (YearFromTime t + 1) (MonthFromTime t - 9) (DateFromTime t)"
    by (auto simp: MakeDay_def)
  moreover have "MonthFromTime t - 9 \<in> {0, 1, 2, 3, 4, 5, 6, 7, 8, 9, 10, 11}"
    using True by auto
  ultimately show ?thesis
    using MakeDay_next_year [of "MonthFromTime t - 9" t "DateFromTime t"] Day_fields [of t]
      MonthStart_bounds [OF InLeapYear_range, of t "MonthFromTime t"]
    by simp
next
  case False
  then have m: "MonthFromTime t \<in> {0, 1, 2, 3, 4, 5, 6, 7, 8}"
    using MonthFromTime_range [of t] by auto
  then have "MonthFromTime t + 3 \<in> {0, 1, 2, 3, 4, 5, 6, 7, 8, 9, 10, 11}" by auto
  moreover have "MonthStart (InLeapYear t) (MonthFromTime t)
      < MonthStart (InLeapYear t) (MonthFromTime t + 3)"
    using m InLeapYear_range [of t] by (auto simp: MonthStart_def)
  ultimately show ?thesis
    using Day_fields [of t] by (simp add: MakeDay_in_year)
qed

lemma MakeDay_Year_greater:
  "Day t < MakeDay (YearFromTime t + 1) (MonthFromTime t) (DateFromTime t)"
  using MakeDay_next_year [of "MonthFromTime t" t "DateFromTime t"] MonthFromTime_range [of t]
    Day_fields [of t] MonthStart_bounds [OF InLeapYear_range, of t "MonthFromTime t"]
  by simp

lemma advance_unclipped:
  "\<exists>x. t < x \<and> advance u (Some t) = TimeClipInt x"
proof (cases u)
  case Second
  have "t < t + msPerSecond" by (simp add: msPerSecond_def)
  then show ?thesis unfolding Second advance_Second by blast
next
  case Minute
  have "t < t + msPerMinute" by (simp add: msPerMinute_def)
  then show ?thesis unfolding Minute advance_Minute by blast
next
  case Hour
  have "t < t + msPerHour" by (simp add: msPerHour_def)
  then show ?thesis unfolding Hour advance_Hour by blast
next
  case Day_unit
  have "t < t + msPerDay" by (simp add: msPerDay_def)
  then show ?thesis unfolding Day_unit advance_Day by blast
next
  case Week
  have "t < t + 7 * msPerDay" by (simp add: msPerDay_def)
  then show ?thesis unfolding Week advance_Week by blast
next
  case Month
  show ?thesis unfolding Month advance.simps
    using MakeDate_less [OF MakeDay_Month_greater, of t] by blast
next
  case Quarter
  show ?thesis unfolding Quarter advance.simps
    using MakeDate_less [OF MakeDay_Quarter_greater, of t] by blast
next
  case Year
  show ?thesis unfolding Year advance.simps
    using MakeDate_less [OF MakeDay_Year_greater, of t] by blast
qed

lemma advance_greater:
  assumes "advance u (Some t) = Some t'"
  shows "t < t'"
proof -
  obtain x where x: "t < x" "advance u (Some t) = TimeClipInt x"
    using advance_unclipped by blast
  then have "x = t'" using assms by (simp add: TimeClipInt_def split: if_splits)
  then show ?thesis using x by simp
qed

section \<open>The constructor\<close>


lemma valid_TimeClipInt: "valid_tv (TimeClipInt x)"
  by (simp add: valid_tv_def TimeClipInt_def)

lemma valid_TimeClip: "valid_tv (TimeClip n)"
proof (cases n)
  case (Finite q)
  show ?thesis
  proof (cases "\<bar>q\<bar> > of_int maxTime")
    case True
    then show ?thesis using Finite by (simp add: valid_tv_def)
  next
    case False
    then have q: "q \<le> of_int maxTime" "- q \<le> of_int maxTime" by linarith+
    have "\<lfloor>q\<rfloor> \<le> maxTime" "\<lfloor>- q\<rfloor> \<le> maxTime"
      using floor_mono [OF q(1)] floor_mono [OF q(2)] by simp_all
    moreover have "q < 0 \<Longrightarrow> 0 \<le> \<lfloor>- q\<rfloor>" "\<not> q < 0 \<Longrightarrow> 0 \<le> \<lfloor>q\<rfloor>" by simp_all
    ultimately show ?thesis using Finite False by (auto simp: valid_tv_def)
  qed
qed (simp_all add: valid_tv_def)

lemma valid_advance: "valid_tv (advance u t)"
proof (cases t)
  case None then show ?thesis by (simp add: valid_tv_def)
next
  case (Some x)
  then show ?thesis using advance_unclipped [of x u] valid_TimeClipInt by auto
qed

lemma copy_Date_valid: "valid_tv t \<Longrightarrow> copy_Date t = t"
  by (cases t) (auto simp: copy_Date_def valid_tv_def abs_if of_int_le_iff [symmetric] simp del: of_int_le_iff)

lemma valid_new_Date: "valid_tv (new_Date parse v)"
  by (cases v) (simp_all add: copy_Date_def valid_TimeClip del: TimeClip.simps)


text \<open>The loop with one of the eight setters: it ends, and what it has pushed are the
  iterates of the setter from the start, as long as they are before the end.\<close>


lemma cursor_at_Suc: "cursor_at u cur (Suc k) = cursor_at u (advance u cur) k"
  by (simp add: cursor_at_def funpow_swap1)

lemma valid_cursor_at: "valid_tv cur \<Longrightarrow> valid_tv (cursor_at u cur k)"
  by (cases k) (simp_all add: cursor_at_def valid_advance)

lemma segments_loop_unit:
  assumes "valid_tv cur"
  shows "\<exists>n. segments_loop (UnitAdvance u) endDate cur segs =
           Some (Inr (segs @ map (cursor_at u cur) [0..<n], cursor_at u cur n))
         \<and> (\<forall>k<n. date_less (cursor_at u cur k) endDate)
         \<and> \<not> date_less (cursor_at u cur n) endDate"
  using assms
proof (induction "case (cur, endDate) of (Some c, Some e) \<Rightarrow> nat (e - c) | _ \<Rightarrow> 0"
    arbitrary: cur segs rule: less_induct)
  case less
  show ?case
  proof (cases "date_less cur endDate")
    case False
    then have "segments_loop (UnitAdvance u) endDate cur segs = Some (Inr (segs, cur))"
      by (subst segments_loop.simps) simp
    then show ?thesis using False
      by (intro exI [of _ 0]) (simp add: cursor_at_def)
  next
    case True
    then obtain c e where ce: "cur = Some c" "endDate = Some e" "c < e"
      by (cases cur; cases endDate) auto
    define cur' where "cur' = advance u cur"
    have v': "valid_tv cur'" by (simp add: cur'_def valid_advance)
    have "(case (cur', endDate) of (Some c, Some e) \<Rightarrow> nat (e - c) | _ \<Rightarrow> 0)
        < (case (cur, endDate) of (Some c, Some e) \<Rightarrow> nat (e - c) | _ \<Rightarrow> 0)"
    proof (cases cur')
      case None then show ?thesis using ce by simp
    next
      case (Some c')
      then have "c < c'" using advance_greater [of u c c'] ce by (simp add: cur'_def)
      then show ?thesis using ce Some by simp
    qed
    from less.hyps [OF this v', of "segs @ [copy_Date cur]"]
    obtain n where n:
      "segments_loop (UnitAdvance u) endDate cur' (segs @ [copy_Date cur]) =
         Some (Inr ((segs @ [copy_Date cur]) @ map (cursor_at u cur') [0..<n], cursor_at u cur' n))"
      "\<forall>k<n. date_less (cursor_at u cur' k) endDate"
      "\<not> date_less (cursor_at u cur' n) endDate"
      by blast
    have step: "segments_loop (UnitAdvance u) endDate cur segs =
        segments_loop (UnitAdvance u) endDate cur' (segs @ [copy_Date cur])"
      using True by (subst segments_loop.simps) (simp add: cur'_def)
    have m: "map (cursor_at u cur) [0..<Suc n] = cur # map (cursor_at u cur') [0..<n]"
      unfolding cur'_def cursor_at_Suc [symmetric]
      by (simp add: upt_conv_Cons map_Suc_upt [symmetric] cursor_at_def del: upt_Suc)
    have "\<forall>k<Suc n. date_less (cursor_at u cur k) endDate"
    proof (intro allI impI)
      fix k assume "k < Suc n"
      then show "date_less (cursor_at u cur k) endDate"
        using n(2) True by (cases k) (simp_all add: cursor_at_Suc cur'_def, simp add: cursor_at_def)
    qed
    moreover have "\<not> date_less (cursor_at u cur (Suc n)) endDate"
      using n(3) by (simp add: cursor_at_Suc cur'_def)
    moreover have "segments_loop (UnitAdvance u) endDate cur segs =
        Some (Inr (segs @ map (cursor_at u cur) [0..<Suc n], cursor_at u cur (Suc n)))"
      unfolding step n(1) m using copy_Date_valid [OF less.prems]
      by (simp add: cursor_at_Suc cur'_def)
    ultimately show ?thesis by blast
  qed
qed

lemma advanceByInterval_lookup_own:
  "advanceByInterval_own interval = Some u \<Longrightarrow> advanceByInterval_lookup interval = Some (UnitAdvance u)"
  by (simp add: advanceByInterval_lookup_def)

lemma construct_valid:
  assumes "ToBoolean start" "ToBoolean end"
    and a: "new_Date parse start = Some a" and b: "new_Date parse end = Some b" and ab: "a < b"
    and u: "advanceByInterval_own interval = Some u"
  shows "\<exists>n. DateRangeIntervals parse start end interval =
           Some (Returns
             \<lparr> segs_pushed = map (cursor_at u (Some a)) [0..<n],
               end_prop = Some b, start_prop = Some a, interval_prop = interval,
               lowerInterval_var = lowerInterval_own interval,
               isEquipartition_prop = time_strict_eq (cursor_at u (Some a) n) (Some b),
               length_prop = n \<rparr>)
         \<and> 0 < n
         \<and> (\<forall>k<n. date_less (cursor_at u (Some a) k) (Some b))
         \<and> \<not> date_less (cursor_at u (Some a) n) (Some b)"
proof -
  have "valid_tv (Some a)" using valid_new_Date [of parse start] a by simp
  from segments_loop_unit [OF this, of u "Some b" "[]"]
  obtain n where n:
    "segments_loop (UnitAdvance u) (Some b) (Some a) [] =
       Some (Inr (map (cursor_at u (Some a)) [0..<n], cursor_at u (Some a) n))"
    "\<forall>k<n. date_less (cursor_at u (Some a) k) (Some b)"
    "\<not> date_less (cursor_at u (Some a) n) (Some b)"
    by auto
  have "n \<noteq> 0" using n(3) ab by (cases n) (auto simp: cursor_at_def)
  then show ?thesis
    using assms(1,2) a b ab n advanceByInterval_lookup_own [OF u]
    by (intro exI [of _ n]) (simp add: DateRangeIntervals_def Let_def)
qed

lemma cursor_before_end:
  assumes "\<forall>k<n. date_less (cursor_at u (Some a) k) (Some b)" "k < n"
  obtains x where "cursor_at u (Some a) k = Some x" "x < b"
  using assms by (cases "cursor_at u (Some a) k") auto

lemma cursor_increasing:
  assumes all: "\<forall>k<n. date_less (cursor_at u (Some a) k) (Some b)"
    and "i < j" "j < n"
  shows "date_less (cursor_at u (Some a) i) (cursor_at u (Some a) j)"
  using assms(2,3)
proof (induction j)
  case 0 then show ?case by simp
next
  case (Suc j)
  obtain x where x: "cursor_at u (Some a) j = Some x"
    using cursor_before_end [OF all, of j] Suc.prems by auto
  obtain y where y: "cursor_at u (Some a) (Suc j) = Some y"
    using cursor_before_end [OF all, of "Suc j"] Suc.prems by auto
  have xy: "x < y" using x y advance_greater [of u x y] by (simp add: cursor_at_def)
  show ?case
  proof (cases "i = j")
    case True then show ?thesis using x y xy by simp
  next
    case False
    then have "date_less (cursor_at u (Some a) i) (cursor_at u (Some a) j)"
      using Suc by simp
    then show ?thesis using x y xy by (cases "cursor_at u (Some a) i") auto
  qed
qed

lemma tiles_unique:
  fixes xs :: "int list"
  assumes "sorted_wrt (<) xs" "xs \<noteq> []" "hd xs \<le> t" "t < last xs"
  shows "\<exists>!i. Suc i < length xs \<and> xs ! i \<le> t \<and> t < xs ! Suc i"
proof -
  have mono: "\<And>i j. i < j \<Longrightarrow> j < length xs \<Longrightarrow> xs ! i < xs ! j"
    using assms(1) by (simp add: sorted_wrt_iff_nth_less)
  define j where "j = (LEAST j. j < length xs \<and> t < xs ! j)"
  have ex: "length xs - 1 < length xs \<and> t < xs ! (length xs - 1)"
    using assms(2,4) by (simp add: last_conv_nth)
  have j: "j < length xs" "t < xs ! j"
    using LeastI [of "\<lambda>j. j < length xs \<and> t < xs ! j", OF ex] by (simp_all add: j_def)
  have least: "\<And>k. k < length xs \<Longrightarrow> t < xs ! k \<Longrightarrow> j \<le> k"
    unfolding j_def by (rule Least_le) simp
  have "j \<noteq> 0" using j assms(2,3) by (cases j) (auto simp: hd_conv_nth)
  then obtain i where i: "j = Suc i" by (cases j) auto
  have "xs ! i \<le> t" using least [of i] j(1) i by fastforce
  then have "Suc i < length xs \<and> xs ! i \<le> t \<and> t < xs ! Suc i" using j i by simp
  moreover have "k = i" if k: "Suc k < length xs \<and> xs ! k \<le> t \<and> t < xs ! Suc k" for k
  proof -
    have "j \<le> Suc k" using least [of "Suc k"] k by simp
    moreover have "\<not> j \<le> k"
    proof
      assume "j \<le> k"
      then have "xs ! j \<le> xs ! k" using mono [of j k] k by (cases "j = k") auto
      then show False using j k by simp
    qed
    ultimately show ?thesis using i by simp
  qed
  ultimately show ?thesis by blast
qed


lemma construct_shape:
  assumes "ToBoolean start" "ToBoolean end"
    and a: "new_Date parse start = Some a" and b: "new_Date parse end = Some b" and ab: "a < b"
    and u: "advanceByInterval_own interval = Some u"
  shows "\<exists>S xs. DateRangeIntervals parse start end interval = Some (Returns S)
         \<and> segments S = map Some xs \<and> sorted_wrt (<) xs \<and> 2 \<le> length xs
         \<and> hd xs = a \<and> last xs = b \<and> (\<forall>x\<in>set xs. \<bar>x\<bar> \<le> maxTime)
         \<and> length_prop S = length xs - 1
         \<and> start_prop S = Some a \<and> end_prop S = Some b \<and> interval_prop S = interval
         \<and> lowerInterval_var S = lowerInterval_own interval"
proof -
  from construct_valid [OF assms] obtain n S where
    S: "DateRangeIntervals parse start end interval = Some (Returns S)"
      "S = \<lparr> segs_pushed = map (cursor_at u (Some a)) [0..<n],
               end_prop = Some b, start_prop = Some a, interval_prop = interval,
               lowerInterval_var = lowerInterval_own interval,
               isEquipartition_prop = time_strict_eq (cursor_at u (Some a) n) (Some b),
               length_prop = n \<rparr>"
    and n: "0 < n" and before: "\<forall>k<n. date_less (cursor_at u (Some a) k) (Some b)"
    by blast
  define ys where "ys = map (\<lambda>k. the (cursor_at u (Some a) k)) [0..<n]"
  have va: "valid_tv (Some a)" using valid_new_Date [of parse start] a by simp
  have vb: "valid_tv (Some b)" using valid_new_Date [of parse "end"] b by simp
  have some: "cursor_at u (Some a) k = Some (ys ! k) \<and> ys ! k < b" if kn: "k < n" for k
  proof -
    obtain x where "cursor_at u (Some a) k = Some x" "x < b"
      using cursor_before_end [OF before kn] .
    then show ?thesis using kn by (simp add: ys_def)
  qed
  have len: "length ys = n" by (simp add: ys_def)
  have segs: "segments S = map Some (ys @ [b])"
    using some by (simp add: segments_def S(2) ys_def)
  have incr: "ys ! i < ys ! j" if "i < j" "j < n" for i j
    using cursor_increasing [OF before that] some [of i] some [OF that(2)] that by simp
  have sorted: "sorted_wrt (<) (ys @ [b])"
    unfolding sorted_wrt_append
  proof (intro conjI)
    show "sorted_wrt (<) ys" using incr len by (simp add: sorted_wrt_iff_nth_less)
    show "sorted_wrt (<) [b]" by simp
    show "\<forall>x\<in>set ys. \<forall>y\<in>set [b]. x < y"
      using some len by (auto simp: in_set_conv_nth)
  qed
  have hd: "hd (ys @ [b]) = a"
    using some [of 0] n len by (cases ys) (auto simp: cursor_at_def)
  have valid: "\<forall>x\<in>set (ys @ [b]). \<bar>x\<bar> \<le> maxTime"
  proof
    fix x assume "x \<in> set (ys @ [b])"
    then consider k where "k < n" "x = ys ! k" | "x = b"
      using len by (auto simp: in_set_conv_nth)
    then show "\<bar>x\<bar> \<le> maxTime"
    proof cases
      case 1
      then show ?thesis using valid_cursor_at [OF va, of u k] some [of k] by (simp add: valid_tv_def)
    next
      case 2 then show ?thesis using vb by (simp add: valid_tv_def)
    qed
  qed
  show ?thesis
    using S(1) segs sorted hd valid n len
    by (intro exI [of _ S] exI [of _ "ys @ [b]"]) (simp add: S(2))
qed

lemma iterate_shape:
  assumes "segments S = map Some xs" "\<forall>x\<in>set xs. \<bar>x\<bar> \<le> maxTime"
  shows "iterate S =
    map (\<lambda>i. \<lparr> iv_start = Some (xs ! i), iv_end = Some (xs ! Suc i), iv_interval = interval_prop S \<rparr>)
      [0..<length xs - 1]"
proof -
  have "copy_Date (Some (xs ! i)) = Some (xs ! i)" if "i < length xs" for i
    using assms(2) that by (intro copy_Date_valid) (simp add: valid_tv_def)
  then show ?thesis
    by (simp add: iterate_def assms(1) DateRangeInterval_def)
qed

lemma construct_invalid_input:
  assumes "\<not> ToBoolean start \<or> \<not> ToBoolean end
         \<or> new_Date parse start = None \<or> new_Date parse end = None
         \<or> date_ge (new_Date parse start) (new_Date parse end)"
  shows "\<exists>e. DateRangeIntervals parse start end interval = Some (Throws e) \<and> InvalidInput e"
  using assms by (auto simp: DateRangeIntervals_def Let_def InvalidInput_def)


lemma cursor_at_step: "cursor_at u cur (Suc k) = advance u (cursor_at u cur k)"
  by (simp add: cursor_at_def)

lemma cursor_chain:
  assumes "cursor_at u c j = Some y" "i < j"
  shows "\<exists>x. cursor_at u c i = Some x \<and> x < y"
  using assms
proof (induction j arbitrary: y)
  case 0 then show ?case by simp
next
  case (Suc j)
  obtain z where z: "cursor_at u c j = Some z"
    using Suc.prems(1) by (cases "cursor_at u c j") (simp_all add: cursor_at_step)
  have zy: "z < y" using Suc.prems(1) z advance_greater [of u z y] by (simp add: cursor_at_step)
  show ?case
  proof (cases "i = j")
    case True then show ?thesis using z zy by simp
  next
    case False
    then obtain x where "cursor_at u c i = Some x" "x < z" using Suc.IH [OF z] Suc.prems(2) by auto
    then show ?thesis using zy by auto
  qed
qed

lemma lands_on_end_iff:
  assumes before: "\<forall>k<n. date_less (cursor_at u c k) (Some b)"
    and stop: "\<not> date_less (cursor_at u c n) (Some b)"
  shows "(\<exists>k. cursor_at u c k = Some b) \<longleftrightarrow> cursor_at u c n = Some b"
proof
  assume "\<exists>k. cursor_at u c k = Some b"
  then obtain k where k: "cursor_at u c k = Some b" by blast
  have "\<not> k < n" using before k by auto
  moreover have "\<not> n < k"
  proof
    assume "n < k"
    from cursor_chain [OF k this] show False using stop by auto
  qed
  ultimately show "cursor_at u c n = Some b" using k by (simp add: not_less antisym)
qed blast

lemma first_not_before:
  assumes before: "\<forall>k<n. date_less (cursor_at u c k) e"
    and stop: "\<not> date_less (cursor_at u c n) e"
  shows "(LEAST k. \<not> date_less (cursor_at u c k) e) = n"
  using assms by (intro Least_equality) (auto simp: not_less [symmetric])

lemma unit_ms_advance:
  assumes "unit_ms u = Some d"
  shows "0 < d" "advance u (Some t) = TimeClipInt (t + d)"
  using assms
  by (cases u; simp add: advance_Second advance_Minute advance_Hour advance_Day advance_Week
      msPerSecond_def msPerMinute_def msPerHour_def msPerDay_def del: advance.simps)+

lemma cursor_fixed:
  assumes d: "unit_ms u = Some d" and "- maxTime \<le> a" "a + int k * d \<le> maxTime"
  shows "cursor_at u (Some a) k = Some (a + int k * d)"
  using assms(3)
proof (induction k)
  case 0 then show ?case by (simp add: cursor_at_def)
next
  case (Suc k)
  have pos: "0 < d" "0 \<le> int k * d" using unit_ms_advance(1) [OF d] by simp_all
  have "a + int k * d \<le> maxTime" using Suc.prems pos by (simp add: algebra_simps)
  then have "cursor_at u (Some a) k = Some (a + int k * d)" by (rule Suc.IH)
  moreover have e: "a + int k * d + d = a + int (Suc k) * d" by (simp add: algebra_simps)
  moreover have "0 \<le> int (Suc k) * d" using pos(1) by simp
  then have "\<bar>a + int (Suc k) * d\<bar> \<le> maxTime" using Suc.prems assms(2) by linarith
  ultimately show ?case
    using unit_ms_advance(2) [OF d, of "a + int k * d"]
    by (simp only: cursor_at_step TimeClipInt_def e) simp
qed

lemma cursor_fixed_value:
  assumes d: "unit_ms u = Some d" and "cursor_at u (Some a) k = Some x"
  shows "x = a + int k * d"
  using assms(2)
proof (induction k arbitrary: x)
  case 0 then show ?case by (simp add: cursor_at_def)
next
  case (Suc k)
  obtain z where z: "cursor_at u (Some a) k = Some z"
    using Suc.prems by (cases "cursor_at u (Some a) k") (simp_all add: cursor_at_step)
  have "TimeClipInt (z + d) = Some x"
    using Suc.prems z unit_ms_advance(2) [OF d] by (simp add: cursor_at_step del: advance.simps)
  then have "x = z + d" by (simp add: TimeClipInt_def split: if_splits)
  then show ?case using Suc.IH [OF z] by (simp add: algebra_simps)
qed

lemma fixed_unit_lands_iff:
  assumes d: "unit_ms u = Some d" and ab: "a < b" and va: "\<bar>a\<bar> \<le> maxTime" and vb: "\<bar>b\<bar> \<le> maxTime"
  shows "(\<exists>k. cursor_at u (Some a) k = Some b) \<longleftrightarrow> (b - a) mod d = 0"
proof
  assume "\<exists>k. cursor_at u (Some a) k = Some b"
  then obtain k where "cursor_at u (Some a) k = Some b" by blast
  then have "b - a = int k * d" using cursor_fixed_value [OF d] by fastforce
  then show "(b - a) mod d = 0" by simp
next
  assume m: "(b - a) mod d = 0"
  have pos: "0 < d" using unit_ms_advance(1) [OF d] .
  define k where "k = nat ((b - a) div d)"
  have "0 \<le> (b - a) div d" using ab pos by (simp add: pos_imp_zdiv_nonneg_iff)
  then have "int k * d = b - a" using m by (simp add: k_def mod_eq_0_iff_dvd)
  then have "cursor_at u (Some a) k = Some b"
    using cursor_fixed [OF d, of a k] va vb by simp
  then show "\<exists>k. cursor_at u (Some a) k = Some b" by blast
qed


section \<open>The traversal\<close>





lemma logging_simps [simp]:
  "signal (logging cb v iv) = signal (cb (unlogged v) iv)"
  "start_after (logging cb v iv) = start_after (cb (unlogged v) iv)"
  "end_after (logging cb v iv) = end_after (cb (unlogged v) iv)"
  "depth (fields_after (logging cb v iv)) = depth (fields_after (cb (unlogged v) iv))"
  "subIntervals (fields_after (logging cb v iv)) = subIntervals (fields_after (cb (unlogged v) iv))"
  "snd (extra (fields_after (logging cb v iv))) = snd (extra v) @ [(depth v, iv)]"
  "fst (extra (fields_after (logging cb v iv))) = extra (fields_after (cb (unlogged v) iv))"
  by (simp_all add: logging_def Let_def)

lemma unlogged_simps [simp]:
  "depth (unlogged v) = depth v" "subIntervals (unlogged v) = subIntervals v"
  "extra (unlogged v) = fst (extra v)"
  by (simp_all add: unlogged_def)

declare try_block.simps [simp del] descend.simps [simp del] accept_loop.simps(2) [simp del]




section \<open>The traversal of the repository's test\<close>














lemma iterate_quarters:
  "\<exists>S. DateRangeIntervals (\<lambda>s. None) (JDate (Some 1704067200000)) (JDate (Some 1735689600000)) ''quarter''
        = Some (Returns S)
     \<and> iterate S = quarters_2024 \<and> lowerInterval_var S = Some ''month''"
proof -
  have "(case DateRangeIntervals (\<lambda>s. None) (JDate (Some 1704067200000)) (JDate (Some 1735689600000)) ''quarter''
         of Some (Returns S) \<Rightarrow> iterate S = quarters_2024 \<and> lowerInterval_var S = Some ''month''
          | _ \<Rightarrow> False)"
    by code_simp
  then show ?thesis by (auto split: option.splits completion.splits)
qed








section \<open>accept, as called\<close>



lemma construct_four_days:
  "DateRangeIntervals no_parse (JDate (Some 1704067200000)) (JDate (Some 1704412800000)) ''day''
     = Some (Returns four_days)"
  by code_simp

lemma iterate_four_days:
  "iterate four_days =
     [span ''day'' 1704067200000 1704153600000, span ''day'' 1704153600000 1704240000000,
      span ''day'' 1704240000000 1704326400000, span ''day'' 1704326400000 1704412800000]"
  by code_simp

lemma accept_instanceof:
  assumes "DateRangeIntervalVisitor_prototype \<in> set chain"
  shows "accept parse S (Object chain \<lparr>visit = cb, writable = v\<rparr>) =
     (case accept_loop parse cb S (iterate S) v of
        None \<Rightarrow> None
      | Some (raised, w) \<Rightarrow>
          Some (async_function raised, Object chain \<lparr>visit = cb, writable = w\<rparr>))"
  using assms by (simp add: accept_def split: option.splits)

lemma accept_Instance:
  "accept parse S (Instance \<lparr>visit = cb, writable = v\<rparr>) =
     (case accept_loop parse cb S (iterate S) v of
        None \<Rightarrow> None
      | Some (raised, w) \<Rightarrow> Some (async_function raised, Instance \<lparr>visit = cb, writable = w\<rparr>))"
  by (simp add: accept_instanceof)

lemma async_function_Fulfilled [simp]:
  "async_function raised = Returns Fulfilled \<longleftrightarrow> raised = None"
  "async_function None = Returns Fulfilled"
  "async_function (Some e) = Returns (Rejected e)"
  by (simp_all add: async_function_def split: option.splits)






lemma preserves_depth_always_throws: "preserves_depth (always_throws err)"
  by (simp add: preserves_depth_def always_throws_def)


text \<open>A descent that fails: the callback rejects without a reason at the first hour of
  the day, the inner \<open>accept\<close> is rejected, and \<open>depth\<close> is back at its value.\<close>

lemma logging_always_throws:
  "logging (always_throws err) v iv =
     \<lparr> signal = Inl err,
       fields_after = v\<lparr>extra := (fst (extra v), snd (extra v) @ [(depth v, iv)])\<rparr>,
       start_after = iv_start iv, end_after = iv_end iv \<rparr>"
  by (simp add: logging_def always_throws_def unlogged_def)

lemma try_block_always_throws:
  "try_block parse (logging (always_throws err)) S iv v =
     Some (iv, Some err, v\<lparr>extra := (fst (extra v), snd (extra v) @ [(depth v, iv)])\<rparr>)"
  by (simp add: try_block.simps logging_always_throws Let_def)




text \<open>The callback of the test on the four days, with \<open>subIntervals\<close> not set.\<close>

lemma test_traversal_no_descent:
  "accept_loop no_parse (logging test_callback) four_days (iterate four_days)
      \<lparr>depth = 0, subIntervals = False, extra = ((0, []), [])\<rparr>
   = Some (None, \<lparr>depth = 0, subIntervals = False,
        extra = ((4, map (\<lambda>iv. (iv_start iv, iv_end iv)) (iterate four_days)),
                 map (Pair 0) (iterate four_days))\<rparr>)"
  by code_simp

lemma accept_not_instanceof:
  "\<not> instanceof_DateRangeIntervalVisitor visitor \<Longrightarrow>
   accept parse S visitor = Some (Returns (Rejected InvalidVisitor), visitor)"
  by (simp add: accept_def async_function_def)

lemma four_days_not_throws: "\<forall>iv\<in>set (iterate four_days). \<not> toISOString_throws iv"
  by (simp add: iterate_four_days span_def toISOString_throws_def)

lemma accept_loop_always_throws_Nullish:
  assumes "\<not> toISOString_throws iv"
  shows "accept_loop parse (logging (always_throws Nullish)) S (iv # ivs) v =
     Some (Some TypeError, v\<lparr>extra := (fst (extra v), snd (extra v) @ [(depth v, iv)])\<rparr>)"
  using assms by (simp add: accept_loop.simps(2) try_block_always_throws catch_block_def)

lemma accept_loop_always_throws_ErrorValue:
  assumes "\<forall>iv\<in>set ivs. \<not> toISOString_throws iv"
  shows "accept_loop parse (logging (always_throws ErrorValue)) S ivs v =
     Some (None, v\<lparr>extra := (fst (extra v), snd (extra v) @ map (Pair (depth v)) ivs)\<rparr>)"
  using assms
proof (induction ivs arbitrary: v)
  case Nil
  show ?case by (cases v) (simp add: prod_eq_iff)
next
  case (Cons iv ivs)
  then show ?case
    by (simp add: accept_loop.simps(2) try_block_always_throws catch_block_def)
qed

section \<open>The Date objects of a set\<close>

















section \<open>Claims\<close>

text \<open>
  Claim C1.  For every construction with present and parseable \<open>start\<close> and \<open>end\<close>,
  \<open>start < end\<close> and one of the eight units, the constructor returns a set whose boundary
  sequence begins at \<open>start\<close>, ends at \<open>end\<close> and is strictly increasing; \<open>length\<close> is
  the number of boundaries less one and is at least 1; iterating yields exactly \<open>length\<close>
  pairs of adjacent boundaries, each pair ending where the next begins, and every instant of
  \<open>[start, end)\<close> lies in exactly one of them, no instant outside does.
\<close>

theorem boundaries_tile_range:
  assumes "ToBoolean start" "ToBoolean end"
    and "new_Date parse start = Some a" and "new_Date parse end = Some b" and "a < b"
    and "advanceByInterval_own interval = Some u"
  shows "\<exists>S. DateRangeIntervals parse start end interval = Some (Returns S)
     \<and> start_prop S = Some a \<and> end_prop S = Some b
     \<and> hd (segments S) = Some a \<and> last (segments S) = Some b
     \<and> sorted_wrt date_less (segments S)
     \<and> length_prop S = length (segments S) - 1 \<and> 1 \<le> length_prop S
     \<and> length (iterate S) = length_prop S
     \<and> (\<forall>i<length_prop S. iv_start (iterate S ! i) = segments S ! i
            \<and> iv_end (iterate S ! i) = segments S ! Suc i
            \<and> date_less (iv_start (iterate S ! i)) (iv_end (iterate S ! i)))
     \<and> (\<forall>i. Suc i < length_prop S \<longrightarrow> iv_end (iterate S ! i) = iv_start (iterate S ! Suc i))
     \<and> (\<forall>t. (\<exists>i<length_prop S. covers (iterate S ! i) t) = (a \<le> t \<and> t < b))
     \<and> (\<forall>t i j. i < length_prop S \<and> j < length_prop S
            \<and> covers (iterate S ! i) t \<and> covers (iterate S ! j) t \<longrightarrow> i = j)"
proof -
  from construct_shape [OF assms] obtain S xs where
    S: "DateRangeIntervals parse start end interval = Some (Returns S)"
    and segs: "segments S = map Some xs" and sorted: "sorted_wrt (<) xs" and len: "2 \<le> length xs"
    and hd: "hd xs = a" and last: "last xs = b" and valid: "\<forall>x\<in>set xs. \<bar>x\<bar> \<le> maxTime"
    and lp: "length_prop S = length xs - 1"
    and props: "start_prop S = Some a" "end_prop S = Some b"
    by blast
  have ne: "xs \<noteq> []" using len by auto
  note it = iterate_shape [OF segs valid]
  have mono: "xs ! i < xs ! j" if "i < j" "j < length xs" for i j
    using sorted that by (simp add: sorted_wrt_iff_nth_less)
  have cov: "covers (iterate S ! i) t = (xs ! i \<le> t \<and> t < xs ! Suc i)" if "i < length xs - 1" for i t
    using that by (simp add: it covers_def)
  have uniq: "\<exists>!i. Suc i < length xs \<and> xs ! i \<le> t \<and> t < xs ! Suc i" if "a \<le> t" "t < b" for t
    using tiles_unique [OF sorted ne] that hd last by simp
  have c1: "hd (segments S) = Some a \<and> last (segments S) = Some b"
    using ne hd last by (simp add: segs hd_map last_map)
  have c2: "sorted_wrt date_less (segments S)"
    using sorted by (simp add: segs sorted_wrt_map)
  have c3: "length_prop S = length (segments S) - 1 \<and> 1 \<le> length_prop S
     \<and> length (iterate S) = length_prop S"
    using len by (simp add: lp segs it)
  have c4: "\<forall>i<length_prop S. iv_start (iterate S ! i) = segments S ! i
            \<and> iv_end (iterate S ! i) = segments S ! Suc i
            \<and> date_less (iv_start (iterate S ! i)) (iv_end (iterate S ! i))"
    using mono by (simp add: lp it segs)
  have c5: "\<forall>i. Suc i < length_prop S \<longrightarrow> iv_end (iterate S ! i) = iv_start (iterate S ! Suc i)"
    by (simp add: lp it)
  have c6: "(\<exists>i<length_prop S. covers (iterate S ! i) t) = (a \<le> t \<and> t < b)" for t
  proof
    assume "\<exists>i<length_prop S. covers (iterate S ! i) t"
    then obtain i where i: "i < length xs - 1" "xs ! i \<le> t" "t < xs ! Suc i"
      using cov lp by auto
    have il: "i < length xs" "length xs - 1 < length xs" using i(1) by simp_all
    have "xs ! 0 \<le> xs ! i" using mono [of 0 i] il by (cases "i = 0") auto
    moreover have "xs ! Suc i \<le> xs ! (length xs - 1)"
      using mono [of "Suc i" "length xs - 1"] i(1) il by (cases "Suc i = length xs - 1") auto
    ultimately show "a \<le> t \<and> t < b"
      using i hd last ne by (simp add: hd_conv_nth last_conv_nth)
  next
    assume "a \<le> t \<and> t < b"
    then obtain i where "Suc i < length xs" "xs ! i \<le> t" "t < xs ! Suc i"
      using uniq [of t] by blast
    then show "\<exists>i<length_prop S. covers (iterate S ! i) t"
      using cov [of i t] lp by (intro exI [of _ i]) simp
  qed
  have c7: "i = j" if "i < length_prop S \<and> j < length_prop S
            \<and> covers (iterate S ! i) t \<and> covers (iterate S ! j) t" for t i j
  proof -
    have i: "Suc i < length xs \<and> xs ! i \<le> t \<and> t < xs ! Suc i"
      and j: "Suc j < length xs \<and> xs ! j \<le> t \<and> t < xs ! Suc j"
      using that cov lp by auto
    have "a \<le> t \<and> t < b" using c6 [of t] that by blast
    then show ?thesis using uniq [of t] i j by blast
  qed
  show ?thesis
    using S props c1 c2 c3 c4 c5 c6 c7 by (intro exI [of _ S]) blast
qed


text \<open>The theorem at the range 2024-01-01 to 2024-01-05 by days.\<close>

theorem boundaries_tile_range_witness:
  "\<exists>S. DateRangeIntervals (\<lambda>s. None) (JDate (Some 1704067200000)) (JNum (Finite 1704412800000)) ''day''
         = Some (Returns S)
     \<and> hd (segments S) = Some 1704067200000 \<and> last (segments S) = Some 1704412800000
     \<and> sorted_wrt date_less (segments S) \<and> 1 \<le> length_prop S
     \<and> length (iterate S) = length_prop S
     \<and> (\<forall>t. (\<exists>i<length_prop S. covers (iterate S ! i) t) = (1704067200000 \<le> t \<and> t < 1704412800000))"
proof -
  have "ToBoolean (JDate (Some 1704067200000))" "ToBoolean (JNum (Finite 1704412800000))"
    "new_Date (\<lambda>s. None) (JDate (Some 1704067200000)) = Some 1704067200000"
    "new_Date (\<lambda>s. None) (JNum (Finite 1704412800000)) = Some 1704412800000"
    "(1704067200000::int) < 1704412800000"
    "advanceByInterval_own ''day'' = Some Day_unit"
    by (simp_all add: copy_Date_def maxTime_def advanceByInterval_own_def)
  from boundaries_tile_range [OF this] show ?thesis by blast
qed

text \<open>
  Claim C7.  Construction throws an InvalidInput error, and returns no set, whenever
  \<open>start\<close> or \<open>end\<close> is missing, or does not convert to a valid instant, or \<open>start\<close>
  is not before \<open>end\<close> (equal instants included), whatever the unit.
\<close>

theorem invalid_input_throws:
  assumes "start = JUndefined \<or> end = JUndefined
         \<or> new_Date parse start = None \<or> new_Date parse end = None
         \<or> (\<exists>a b. new_Date parse start = Some a \<and> new_Date parse end = Some b \<and> a \<ge> b)"
  shows "(\<exists>e. DateRangeIntervals parse start end interval = Some (Throws e) \<and> InvalidInput e)
       \<and> (\<forall>S. DateRangeIntervals parse start end interval \<noteq> Some (Returns S))"
proof -
  have "\<not> ToBoolean start \<or> \<not> ToBoolean end
         \<or> new_Date parse start = None \<or> new_Date parse end = None
         \<or> date_ge (new_Date parse start) (new_Date parse end)"
    using assms by auto
  from construct_invalid_input [OF this, of interval] show ?thesis by auto
qed

text \<open>The theorem where \<open>start\<close> and \<open>end\<close> are the same instant.\<close>

theorem invalid_input_throws_witness:
  "(\<exists>e. DateRangeIntervals (\<lambda>s. None) (JDate (Some 1704067200000)) (JDate (Some 1704067200000)) ''day''
         = Some (Throws e) \<and> InvalidInput e)
   \<and> (\<forall>S. DateRangeIntervals (\<lambda>s. None) (JDate (Some 1704067200000)) (JDate (Some 1704067200000)) ''day''
         \<noteq> Some (Returns S))"
proof -
  have "\<exists>a b. new_Date (\<lambda>s. None) (JDate (Some 1704067200000)) = Some a
      \<and> new_Date (\<lambda>s. None) (JDate (Some 1704067200000)) = Some b \<and> a \<ge> b"
    by (simp add: copy_Date_def maxTime_def)
  then show ?thesis
    by (intro invalid_input_throws) blast
qed

text \<open>
  Claim C10.  The number 0 converts to a valid instant, the epoch, and a range from the
  epoch given as a Date is accepted; yet with \<open>start\<close> the number 0 construction throws
  'Start and end dates required', whatever \<open>end\<close> and the unit are.  The same holds for
  every falsy \<open>start\<close> or \<open>end\<close>, the empty string among them.
\<close>

theorem falsy_argument_is_missing:
  "new_Date parse (JNum (Finite 0)) = Some 0
   \<and> (\<exists>S. DateRangeIntervals parse (JDate (Some 0)) (JNum (Finite 86400000)) ''day'' = Some (Returns S))
   \<and> DateRangeIntervals parse (JNum (Finite 0)) end interval = Some (Throws StartEndRequired)
   \<and> (\<not> ToBoolean v \<longrightarrow>
        DateRangeIntervals parse v end interval = Some (Throws StartEndRequired)
      \<and> DateRangeIntervals parse start v interval = Some (Throws StartEndRequired))
   \<and> \<not> ToBoolean (JNum (Finite 0)) \<and> \<not> ToBoolean (JStr '''')"
proof -
  have "\<exists>S. DateRangeIntervals parse (JDate (Some 0)) (JNum (Finite 86400000)) ''day'' = Some (Returns S)"
    using construct_shape [of "JDate (Some 0)" "JNum (Finite 86400000)" parse 0 86400000 "''day''" Day_unit]
    by (auto simp: copy_Date_def maxTime_def advanceByInterval_own_def)
  then show ?thesis
    by (simp add: DateRangeIntervals_def maxTime_def)
qed

theorem falsy_argument_is_missing_witness:
  "\<not> ToBoolean (JStr '''') \<and>
   DateRangeIntervals (\<lambda>s. None) (JStr '''') (JDate (Some 86400000)) ''day'' = Some (Throws StartEndRequired)
   \<and> DateRangeIntervals (\<lambda>s. None) (JDate (Some 0)) (JStr '''') ''day'' = Some (Throws StartEndRequired)"
  using falsy_argument_is_missing [of "\<lambda>s. None" "JDate (Some 86400000)" "''day''" "JStr ''''" "JDate (Some 0)"]
    falsy_argument_is_missing [of "\<lambda>s. None" "JStr ''''" "''day''" "JStr ''''" "JDate (Some 0)"]
  by simp

text \<open>
  Claim C6, as amended.  When \<open>start\<close> and \<open>end\<close> pass validation, a unit that is in neither
  lookup table nor inherited by them makes construction throw
  \<open>Invalid interval '...' provided.\<close>; when \<open>start\<close> or \<open>end\<close> fail validation, the
  error thrown is the InvalidInput one, whatever the unit.
\<close>

theorem invalid_unit_after_valid_dates:
  "(ToBoolean start \<and> ToBoolean end \<and> new_Date parse start = Some a \<and> new_Date parse end = Some b
      \<and> a < b \<and> advanceByInterval_lookup interval = None
    \<longrightarrow> DateRangeIntervals parse start end interval = Some (Throws (InvalidInterval interval)))
   \<and> (\<not> ToBoolean start \<or> \<not> ToBoolean end
         \<or> new_Date parse start = None \<or> new_Date parse end = None
         \<or> date_ge (new_Date parse start) (new_Date parse end)
    \<longrightarrow> (\<exists>e. DateRangeIntervals parse start end interval = Some (Throws e)
           \<and> InvalidInput e \<and> \<not> InvalidUnit e))"
proof (intro conjI impI)
  assume "ToBoolean start \<and> ToBoolean end \<and> new_Date parse start = Some a \<and> new_Date parse end = Some b
      \<and> a < b \<and> advanceByInterval_lookup interval = None"
  then show "DateRangeIntervals parse start end interval = Some (Throws (InvalidInterval interval))"
    by (simp add: DateRangeIntervals_def)
next
  assume "\<not> ToBoolean start \<or> \<not> ToBoolean end
         \<or> new_Date parse start = None \<or> new_Date parse end = None
         \<or> date_ge (new_Date parse start) (new_Date parse end)"
  from construct_invalid_input [OF this, of interval]
  show "\<exists>e. DateRangeIntervals parse start end interval = Some (Throws e)
           \<and> InvalidInput e \<and> \<not> InvalidUnit e"
    by (auto simp: InvalidInput_def InvalidUnit_def)
qed

theorem invalid_unit_after_valid_dates_witness:
  "DateRangeIntervals (\<lambda>s. None) (JDate (Some 1704067200000)) (JDate (Some 1704412800000)) ''bogus''
     = Some (Throws (InvalidInterval ''bogus''))
   \<and> (\<exists>e. DateRangeIntervals (\<lambda>s. None) JUndefined (JDate (Some 1704412800000)) ''bogus'' = Some (Throws e)
           \<and> InvalidInput e \<and> \<not> InvalidUnit e)"
  using invalid_unit_after_valid_dates [of "JDate (Some 1704067200000)" "JDate (Some 1704412800000)"
      "\<lambda>s. None" 1704067200000 1704412800000 "''bogus''"]
    invalid_unit_after_valid_dates [of JUndefined "JDate (Some 1704412800000)"
      "\<lambda>s. None" 0 0 "''bogus''"]
  by (simp add: copy_Date_def maxTime_def advanceByInterval_lookup_def advanceByInterval_own_def
      Object_prototype_def)

text \<open>
  Claim C6 as stated fails: with the unit \<open>bogus\<close> and a missing \<open>start\<close>, or with
  \<open>start\<close> equal to \<open>end\<close> as in the repository's own test, the error thrown is not the
  invalid-unit one.
\<close>

theorem invalid_unit_counterexample:
  "advanceByInterval_lookup ''bogus'' = None
   \<and> DateRangeIntervals (\<lambda>s. None) JUndefined (JDate (Some 1704412800000)) ''bogus''
       = Some (Throws StartEndRequired)
   \<and> DateRangeIntervals (\<lambda>s. None) (JDate (Some 1704412800000)) (JDate (Some 1704412800000)) ''bogus''
       = Some (Throws StartNotBeforeEnd)
   \<and> \<not> InvalidUnit StartEndRequired \<and> \<not> InvalidUnit StartNotBeforeEnd"
  by (simp add: DateRangeIntervals_def copy_Date_def maxTime_def advanceByInterval_lookup_def
      advanceByInterval_own_def Object_prototype_def InvalidUnit_def)

text \<open>
  Claim C4.  For a construction that passes validation with one of the eight units,
  \<open>isEquipartition\<close> is true if and only if the cursor, advanced from \<open>start\<close> one unit
  at a time up to the first value that is not before \<open>end\<close>, is \<open>end\<close>; equivalently, if
  some number of unit steps from \<open>start\<close> gives \<open>end\<close>; equivalently, if one unit step
  from the last boundary before \<open>end\<close> gives \<open>end\<close>; and, for the units of fixed length,
  if the length of the range is a multiple of the unit.
\<close>

theorem isEquipartition_iff:
  assumes "ToBoolean start" "ToBoolean end"
    and "new_Date parse start = Some a" and "new_Date parse end = Some b" and "a < b"
    and "advanceByInterval_own interval = Some u"
  shows "\<exists>S. DateRangeIntervals parse start end interval = Some (Returns S)
     \<and> (isEquipartition_prop S \<longleftrightarrow>
          cursor_at u (Some a) (LEAST k. \<not> date_less (cursor_at u (Some a) k) (Some b)) = Some b)
     \<and> (isEquipartition_prop S \<longleftrightarrow> (\<exists>k. cursor_at u (Some a) k = Some b))
     \<and> (isEquipartition_prop S \<longleftrightarrow> advance u (last (segs_pushed S)) = Some b)
     \<and> (\<forall>d. unit_ms u = Some d \<longrightarrow> (isEquipartition_prop S \<longleftrightarrow> (b - a) mod d = 0))"
proof -
  from construct_valid [OF assms] obtain n S where
    S: "DateRangeIntervals parse start end interval = Some (Returns S)"
      "S = \<lparr> segs_pushed = map (cursor_at u (Some a)) [0..<n],
               end_prop = Some b, start_prop = Some a, interval_prop = interval,
               lowerInterval_var = lowerInterval_own interval,
               isEquipartition_prop = time_strict_eq (cursor_at u (Some a) n) (Some b),
               length_prop = n \<rparr>"
    and n: "0 < n" and before: "\<forall>k<n. date_less (cursor_at u (Some a) k) (Some b)"
    and stop: "\<not> date_less (cursor_at u (Some a) n) (Some b)"
    by blast
  have eq: "isEquipartition_prop S \<longleftrightarrow> cursor_at u (Some a) n = Some b"
    by (cases "cursor_at u (Some a) n") (simp_all add: S(2))
  have c1: "isEquipartition_prop S \<longleftrightarrow>
      cursor_at u (Some a) (LEAST k. \<not> date_less (cursor_at u (Some a) k) (Some b)) = Some b"
    using eq first_not_before [OF before stop] by simp
  have c2: "isEquipartition_prop S \<longleftrightarrow> (\<exists>k. cursor_at u (Some a) k = Some b)"
    using eq lands_on_end_iff [OF before stop] by simp
  have "last (segs_pushed S) = cursor_at u (Some a) (n - 1)"
    using n by (simp add: S(2) last_map)
  then have "advance u (last (segs_pushed S)) = cursor_at u (Some a) n"
    using n cursor_at_step [of u "Some a" "n - 1"] by simp
  then have c3: "isEquipartition_prop S \<longleftrightarrow> advance u (last (segs_pushed S)) = Some b"
    using eq by simp
  have va: "\<bar>a\<bar> \<le> maxTime" using valid_new_Date [of parse start] assms(3) by (simp add: valid_tv_def)
  have vb: "\<bar>b\<bar> \<le> maxTime" using valid_new_Date [of parse "end"] assms(4) by (simp add: valid_tv_def)
  have c4: "\<forall>d. unit_ms u = Some d \<longrightarrow> (isEquipartition_prop S \<longleftrightarrow> (b - a) mod d = 0)"
    using c2 fixed_unit_lands_iff [OF _ assms(5) va vb] by simp
  show ?thesis using S(1) c1 c2 c3 c4 by blast
qed

text \<open>The theorem at 2024-01-01T00:00 to 2024-01-01T00:00:02.500 by seconds: the last of
  the three intervals is half a second, and the range is not an equipartition.\<close>

theorem isEquipartition_iff_witness:
  "\<exists>S. DateRangeIntervals (\<lambda>s. None) (JDate (Some 1704067200000)) (JDate (Some 1704067202500)) ''second''
         = Some (Returns S)
     \<and> (isEquipartition_prop S \<longleftrightarrow> (\<exists>k. cursor_at Second (Some 1704067200000) k = Some 1704067202500))
     \<and> (isEquipartition_prop S \<longleftrightarrow> (1704067202500 - 1704067200000) mod 1000 = (0::int))
     \<and> \<not> isEquipartition_prop S"
proof -
  have "ToBoolean (JDate (Some 1704067200000))" "ToBoolean (JDate (Some 1704067202500))"
    "new_Date (\<lambda>s. None) (JDate (Some 1704067200000)) = Some 1704067200000"
    "new_Date (\<lambda>s. None) (JDate (Some 1704067202500)) = Some 1704067202500"
    "(1704067200000::int) < 1704067202500"
    "advanceByInterval_own ''second'' = Some Second"
    by (simp_all add: copy_Date_def maxTime_def advanceByInterval_own_def)
  from isEquipartition_iff [OF this] obtain S where
    "DateRangeIntervals (\<lambda>s. None) (JDate (Some 1704067200000)) (JDate (Some 1704067202500)) ''second''
         = Some (Returns S)"
    "isEquipartition_prop S \<longleftrightarrow> (\<exists>k. cursor_at Second (Some 1704067200000) k = Some 1704067202500)"
    "\<forall>d. unit_ms Second = Some d \<longrightarrow> (isEquipartition_prop S \<longleftrightarrow> (1704067202500 - 1704067200000) mod d = 0)"
    by blast
  then show ?thesis by (intro exI [of _ S]) simp
qed







text \<open>
  Claim C3 at a failing input.  On the four days from 2024-01-01, a callback that is
  rejected without a reason (or throws \<open>undefined\<close> or \<open>null\<close>) is called for the first
  day only: the \<open>catch\<close> block reads \<open>err.message\<close>, which raises a TypeError, and the
  promise of \<open>accept\<close> is rejected with it; the other three days are not visited.  A
  callback that fails with an Error at every call is called for all four days, and the
  promise is fulfilled, as the claim says.
\<close>

theorem rejection_without_reason_aborts:
  "DateRangeIntervals no_parse (JDate (Some 1704067200000)) (JDate (Some 1704412800000)) ''day''
     = Some (Returns four_days)
   \<and> length (iterate four_days) = 4
   \<and> accept no_parse four_days
        (Instance \<lparr>visit = logging (always_throws Nullish),
                   writable = \<lparr>depth = 0, subIntervals = False, extra = ((), [])\<rparr>\<rparr>)
      = Some (Returns (Rejected TypeError),
          Instance \<lparr>visit = logging (always_throws Nullish),
                    writable = \<lparr>depth = 0, subIntervals = False,
                                extra = ((), [(0, span ''day'' 1704067200000 1704153600000)])\<rparr>\<rparr>)
   \<and> accept no_parse four_days
        (Instance \<lparr>visit = logging (always_throws ErrorValue),
                   writable = \<lparr>depth = 0, subIntervals = False, extra = ((), [])\<rparr>\<rparr>)
      = Some (Returns Fulfilled,
          Instance \<lparr>visit = logging (always_throws ErrorValue),
                    writable = \<lparr>depth = 0, subIntervals = False,
                                extra = ((), map (Pair 0) (iterate four_days))\<rparr>\<rparr>)"
proof (intro conjI)
  show "DateRangeIntervals no_parse (JDate (Some 1704067200000)) (JDate (Some 1704412800000)) ''day''
     = Some (Returns four_days)"
    by (rule construct_four_days)
  show "length (iterate four_days) = 4" by (simp add: iterate_four_days)
  show "accept no_parse four_days
        (Instance \<lparr>visit = logging (always_throws Nullish),
                   writable = \<lparr>depth = 0, subIntervals = False, extra = ((), [])\<rparr>\<rparr>)
      = Some (Returns (Rejected TypeError),
          Instance \<lparr>visit = logging (always_throws Nullish),
                    writable = \<lparr>depth = 0, subIntervals = False,
                                extra = ((), [(0, span ''day'' 1704067200000 1704153600000)])\<rparr>\<rparr>)"
    using four_days_not_throws
    by (simp add: accept_Instance iterate_four_days accept_loop_always_throws_Nullish)
  show "accept no_parse four_days
        (Instance \<lparr>visit = logging (always_throws ErrorValue),
                   writable = \<lparr>depth = 0, subIntervals = False, extra = ((), [])\<rparr>\<rparr>)
      = Some (Returns Fulfilled,
          Instance \<lparr>visit = logging (always_throws ErrorValue),
                    writable = \<lparr>depth = 0, subIntervals = False,
                                extra = ((), map (Pair 0) (iterate four_days))\<rparr>\<rparr>)"
    using accept_loop_always_throws_ErrorValue [OF four_days_not_throws]
    by (simp add: accept_Instance)
qed

text \<open>The part of the theorem about the callback rejected without a reason, on its own.\<close>

theorem rejection_without_reason_aborts_witness:
  "\<exists>after. accept no_parse four_days
        (Instance \<lparr>visit = logging (always_throws Nullish),
                   writable = \<lparr>depth = 0, subIntervals = False, extra = ((), [])\<rparr>\<rparr>)
      = Some (Returns (Rejected TypeError), after)"
  using rejection_without_reason_aborts by blast

text \<open>
  Claim C8, as amended.  For every argument that fails the test
  \<open>visitor instanceof DateRangeIntervalVisitor\<close>, that is, a value that is not an object
  or an object without \<open>DateRangeIntervalVisitor.prototype\<close> on its prototype chain, an
  object literal or a function that has the three properties of a visitor included,
  \<open>accept\<close> returns a promise rejected with the invalid-visitor error; the argument is
  left as it was, nothing having been visited, and nothing is thrown to the caller.  The
  visitor's constructor throws for every argument that is not a function, and what it
  returns for a function passes the test.  So does every object with the prototype on its
  chain, whether or not the constructor made it: an object made with \<open>Object.create\<close>
  from the prototype, on which no constructor has run, is traversed, and the promise is
  fulfilled.
\<close>

theorem invalid_visitor_rejected:
  "(\<not> instanceof_DateRangeIntervalVisitor visitor \<longrightarrow>
      accept parse S visitor = Some (Returns (Rejected InvalidVisitor), visitor))
   \<and> (instanceof_DateRangeIntervalVisitor visitor \<longleftrightarrow>
        (\<exists>chain obj. visitor = Object chain obj \<and> DateRangeIntervalVisitor_prototype \<in> set chain))
   \<and> accept parse S (PlainObject obj) = Some (Returns (Rejected InvalidVisitor), PlainObject obj)
   \<and> accept parse S (FunctionObject obj)
        = Some (Returns (Rejected InvalidVisitor), FunctionObject obj)
   \<and> accept parse S (OtherValue x) = Some (Returns (Rejected InvalidVisitor), OtherValue x)
   \<and> DateRangeIntervalVisitor (NotFunction x') attached = Throws VisitorNotFunction
   \<and> (\<exists>made. DateRangeIntervalVisitor (Function f) attached = Returns made
          \<and> instanceof_DateRangeIntervalVisitor made)
   \<and> DateRangeIntervalVisitor fn attached \<noteq> Returns (Object created_chain obj)
   \<and> instanceof_DateRangeIntervalVisitor (Object created_chain obj)
   \<and> accept no_parse four_days
        (Object created_chain
          \<lparr>visit = logging test_callback,
           writable = \<lparr>depth = 0, subIntervals = False, extra = ((0, []), [])\<rparr>\<rparr>)
      = Some (Returns Fulfilled,
          Object created_chain
            \<lparr>visit = logging test_callback,
             writable = \<lparr>depth = 0, subIntervals = False,
               extra = ((4, map (\<lambda>iv. (iv_start iv, iv_end iv)) (iterate four_days)),
                        map (Pair 0) (iterate four_days))\<rparr>\<rparr>)"
proof (intro conjI impI)
  assume "\<not> instanceof_DateRangeIntervalVisitor visitor"
  then show "accept parse S visitor = Some (Returns (Rejected InvalidVisitor), visitor)"
    by (rule accept_not_instanceof)
next
  show "instanceof_DateRangeIntervalVisitor visitor \<longleftrightarrow>
        (\<exists>chain obj. visitor = Object chain obj \<and> DateRangeIntervalVisitor_prototype \<in> set chain)"
    by (cases visitor) simp_all
next
  show "accept parse S (PlainObject obj) = Some (Returns (Rejected InvalidVisitor), PlainObject obj)"
    by (rule accept_not_instanceof) simp
next
  show "accept parse S (FunctionObject obj)
        = Some (Returns (Rejected InvalidVisitor), FunctionObject obj)"
    by (rule accept_not_instanceof) simp
next
  show "accept parse S (OtherValue x) = Some (Returns (Rejected InvalidVisitor), OtherValue x)"
    by (rule accept_not_instanceof) simp
next
  show "DateRangeIntervalVisitor (NotFunction x') attached = Throws VisitorNotFunction"
    by (simp add: DateRangeIntervalVisitor_def)
next
  show "\<exists>made. DateRangeIntervalVisitor (Function f) attached = Returns made
          \<and> instanceof_DateRangeIntervalVisitor made"
    by (simp add: DateRangeIntervalVisitor_def)
next
  show "DateRangeIntervalVisitor fn attached \<noteq> Returns (Object created_chain obj)"
    by (cases fn) (simp_all add: DateRangeIntervalVisitor_def created_chain_def)
next
  show "instanceof_DateRangeIntervalVisitor (Object created_chain obj)"
    by (simp add: created_chain_def)
next
  have "DateRangeIntervalVisitor_prototype \<in> set created_chain" by (simp add: created_chain_def)
  then show "accept no_parse four_days
        (Object created_chain
          \<lparr>visit = logging test_callback,
           writable = \<lparr>depth = 0, subIntervals = False, extra = ((0, []), [])\<rparr>\<rparr>)
      = Some (Returns Fulfilled,
          Object created_chain
            \<lparr>visit = logging test_callback,
             writable = \<lparr>depth = 0, subIntervals = False,
               extra = ((4, map (\<lambda>iv. (iv_start iv, iv_end iv)) (iterate four_days)),
                        map (Pair 0) (iterate four_days))\<rparr>\<rparr>)"
    by (simp add: accept_instanceof test_traversal_no_descent)
qed

text \<open>The theorem at a function that has been given the three properties.\<close>

theorem invalid_visitor_rejected_witness:
  "accept no_parse four_days
     (FunctionObject \<lparr>visit = always_throws ErrorValue,
                      writable = \<lparr>depth = 0, subIntervals = False, extra = ()\<rparr>\<rparr>)
   = Some (Returns (Rejected InvalidVisitor),
       FunctionObject \<lparr>visit = always_throws ErrorValue,
                       writable = \<lparr>depth = 0, subIntervals = False, extra = ()\<rparr>\<rparr>)"
  by (rule invalid_visitor_rejected [THEN conjunct1, THEN mp]) simp

text \<open>
  Claim C8 as stated fails for \<open>accept\<close>.  Called with an object literal that has the
  three properties of a visitor, it does not throw: it returns a promise, which is
  rejected.  Called with an object made with \<open>Object.create\<close> from the prototype and given
  the three properties, which no constructor made, it does not fail at all: the four days
  are visited and the promise is fulfilled.
\<close>

theorem accept_does_not_throw_counterexample:
  "accept no_parse four_days
     (PlainObject \<lparr>visit = always_throws ErrorValue,
                   writable = \<lparr>depth = 0, subIntervals = False, extra = ()\<rparr>\<rparr>)
   = Some (Returns (Rejected InvalidVisitor),
       PlainObject \<lparr>visit = always_throws ErrorValue,
                    writable = \<lparr>depth = 0, subIntervals = False, extra = ()\<rparr>\<rparr>)
   \<and> Returns (Rejected InvalidVisitor) \<noteq> (Throws InvalidVisitor :: promise completion)
   \<and> accept no_parse four_days
        (Object created_chain
          \<lparr>visit = logging (always_throws ErrorValue),
           writable = \<lparr>depth = 0, subIntervals = False, extra = ((), [])\<rparr>\<rparr>)
      = Some (Returns Fulfilled,
          Object created_chain
            \<lparr>visit = logging (always_throws ErrorValue),
             writable = \<lparr>depth = 0, subIntervals = False,
               extra = ((), [(0, span ''day'' 1704067200000 1704153600000),
                             (0, span ''day'' 1704153600000 1704240000000),
                             (0, span ''day'' 1704240000000 1704326400000),
                             (0, span ''day'' 1704326400000 1704412800000)])\<rparr>\<rparr>)"
proof -
  have "DateRangeIntervalVisitor_prototype \<in> set created_chain" by (simp add: created_chain_def)
  then have "accept no_parse four_days
        (Object created_chain
          \<lparr>visit = logging (always_throws ErrorValue),
           writable = \<lparr>depth = 0, subIntervals = False, extra = ((), [])\<rparr>\<rparr>)
      = Some (Returns Fulfilled,
          Object created_chain
            \<lparr>visit = logging (always_throws ErrorValue),
             writable = \<lparr>depth = 0, subIntervals = False,
               extra = ((), [(0, span ''day'' 1704067200000 1704153600000),
                             (0, span ''day'' 1704153600000 1704240000000),
                             (0, span ''day'' 1704240000000 1704326400000),
                             (0, span ''day'' 1704326400000 1704412800000)])\<rparr>\<rparr>)"
    by (simp add: accept_instanceof accept_loop_always_throws_ErrorValue [OF four_days_not_throws])
      (simp add: iterate_four_days)
  then show ?thesis by (simp add: accept_def async_function_def)
qed




end
